theory Spec2Isabelle
  imports Main
begin

section \<open>The currenton: a per-thread stack of current objects\<close>

text \<open>
  The development embeds \<^verbatim>\<open>src/currenton.cc\<close>: the class template
  \<^verbatim>\<open>Currenton<T>\<close> with its two public static members \<^verbatim>\<open>get\<close> and
  \<^verbatim>\<open>makeCurrent\<close> and the private \<^verbatim>\<open>getCurrenton\<close>.

  All definitions describe what one thread does. The object behind
  \<^verbatim>\<open>thread_local Currenton currenton\<close> is constructed when the thread first runs
  \<^verbatim>\<open>getCurrenton\<close> of that instantiation, so the thread-local storage of the thread is
  a partial map from instantiations to objects. The instantiation \<^verbatim>\<open>T\<close> is a key of
  type \<open>'k\<close>; the elements of all stacks are taken from one type \<open>'v\<close>.

  \<^verbatim>\<open>get\<close> returns a reference (\<^verbatim>\<open>T&\<close>) to the top element. A reference to an
  element is the position of the element in its stack, counted from the bottom: the
  \<^verbatim>\<open>std::deque\<close> under a \<^verbatim>\<open>std::stack\<close> keeps a reference to an element valid
  while elements are pushed and popped above it. Code can read and assign the element
  through the reference for as long as the element is on the stack; a reference to no
  element of the stack is dangling, and its use has undefined behaviour. A reference
  whose element has been popped is dangling in the source also when another element has
  since been pushed at its position; here it reaches that element, so an action stands
  for at least the code that the source admits.

  The console output of the constructor and the destructor is left out.
\<close>

subsection \<open>Exceptions and undefined behaviour\<close>

text \<open>
  \<^verbatim>\<open>get\<close> throws \<^verbatim>\<open>std::runtime_error("No current object")\<close>; a callback, the move
  constructor of \<^verbatim>\<open>T\<close> and the allocation of the stack may throw anything else.
\<close>

datatype 'x exn = runtime_error string | thrown 'x

text \<open>
  Undefined behaviour ends a run: \<^verbatim>\<open>top\<close> or \<^verbatim>\<open>pop\<close> on an empty \<^verbatim>\<open>std::stack\<close>,
  or the use of a dangling reference. A run gives \<open>Inl\<close> of it, or \<open>Inr\<close> of its result.
\<close>

datatype ub = top_of_empty | pop_of_empty | dangling_reference

subsection \<open>\<^verbatim>\<open>std::stack<T>\<close>\<close>

text \<open>
  The top of the stack is the head of the list. \<^verbatim>\<open>push\<close> constructs the new element
  from its argument and may have to allocate; when that throws (\<open>pf\<close> is what is thrown,
  if anything is), the stack is as before. \<^verbatim>\<open>top\<close> returns a reference to the top
  element: its position, given here together with the element. \<^verbatim>\<open>pop\<close> destroys the
  top element; a destructor is \<^verbatim>\<open>noexcept\<close>, so \<^verbatim>\<open>pop\<close> throws nothing.
\<close>

definition stack_empty :: "'v list \<Rightarrow> bool" where
  "stack_empty st = (st = [])"

definition stack_push :: "'x exn option \<Rightarrow> 'v \<Rightarrow> 'v list \<Rightarrow> 'x exn + 'v list" where
  "stack_push pf t st = (case pf of Some e \<Rightarrow> Inl e | None \<Rightarrow> Inr (t # st))"

definition stack_top :: "'v list \<Rightarrow> ub + nat \<times> 'v" where
  "stack_top st = (case st of [] \<Rightarrow> Inl top_of_empty | v # st' \<Rightarrow> Inr (length st', v))"

definition stack_pop :: "'v list \<Rightarrow> ub + 'v list" where
  "stack_pop st = (case st of [] \<Rightarrow> Inl pop_of_empty | _ # st' \<Rightarrow> Inr st')"

text \<open>Reading and assigning the element at position \<open>i\<close> through a reference to it.\<close>

definition stack_at :: "nat \<Rightarrow> 'v list \<Rightarrow> ub + 'v" where
  "stack_at i st = (if i < length st then Inr (rev st ! i) else Inl dangling_reference)"

definition stack_assign :: "nat \<Rightarrow> 'v \<Rightarrow> 'v list \<Rightarrow> ub + 'v list" where
  "stack_assign i v st =
     (if i < length st then Inr (rev ((rev st)[i := v])) else Inl dangling_reference)"

subsection \<open>The class and the thread-local storage\<close>

record 'v currenton =
  stack :: "'v list"

type_synonym ('k, 'v) tls = "'k \<Rightarrow> 'v currenton option"

text \<open>
  \<^verbatim>\<open>getCurrenton\<close> returns the thread's object of the instantiation, constructing it
  with an empty stack on first use.
\<close>

definition getCurrenton :: "'k \<Rightarrow> ('k, 'v) tls \<Rightarrow> 'v currenton \<times> ('k, 'v) tls" where
  "getCurrenton T \<sigma> =
     (case \<sigma> T of
        None \<Rightarrow> (\<lparr>stack = []\<rparr>, \<sigma>(T \<mapsto> \<lparr>stack = []\<rparr>))
      | Some c \<Rightarrow> (c, \<sigma>))"

text \<open>The contents of the stack of an instantiation; no object yet means no element.\<close>

definition stack_of :: "('k, 'v) tls \<Rightarrow> 'k \<Rightarrow> 'v list" where
  "stack_of \<sigma> T = (case \<sigma> T of None \<Rightarrow> [] | Some c \<Rightarrow> stack c)"

text \<open>
  Code that holds a reference to an element of \<^verbatim>\<open>Currenton<T>\<close> reads and assigns the
  element without a call of the class.
\<close>

definition deref :: "'k \<Rightarrow> nat \<Rightarrow> ('k, 'v) tls \<Rightarrow> ub + 'v" where
  "deref T i \<sigma> =
     (case \<sigma> T of
        None \<Rightarrow> Inl dangling_reference
      | Some c \<Rightarrow> stack_at i (stack c))"

definition assign :: "'k \<Rightarrow> nat \<Rightarrow> 'v \<Rightarrow> ('k, 'v) tls \<Rightarrow> ub + ('k, 'v) tls" where
  "assign T i v \<sigma> =
     (case \<sigma> T of
        None \<Rightarrow> Inl dangling_reference
      | Some c \<Rightarrow>
          (case stack_assign i v (stack c) of
             Inl u \<Rightarrow> Inl u
           | Inr st \<Rightarrow> Inr (\<sigma>(T \<mapsto> c\<lparr>stack := st\<rparr>))))"

subsection \<open>\<^verbatim>\<open>get\<close>\<close>

text \<open>
  \<^verbatim>\<open>
  static T& get() {
    if (!getCurrenton().stack.empty()) { return getCurrenton().stack.top(); }
    else { throw std::runtime_error("No current object"); }
  }
  \<close>
\<close>

definition get ::
  "'k \<Rightarrow> ('k, 'v) tls \<Rightarrow> ub + ('x exn + nat \<times> 'v) \<times> ('k, 'v) tls" where
  "get T \<sigma> =
     (case getCurrenton T \<sigma> of (c, \<sigma>1) \<Rightarrow>
        if \<not> stack_empty (stack c) then
          (case getCurrenton T \<sigma>1 of (c', \<sigma>2) \<Rightarrow>
             (case stack_top (stack c') of
                Inl u \<Rightarrow> Inl u
              | Inr r \<Rightarrow> Inr (Inr r, \<sigma>2)))
        else Inr (Inl (runtime_error ''No current object''), \<sigma>1))"

subsection \<open>\<^verbatim>\<open>makeCurrent\<close>\<close>

text \<open>
  The statement \<^verbatim>\<open>getCurrenton().stack.push(std::move(t))\<close>, which throws when the
  push throws and has then constructed the object at most, and the statement
  \<^verbatim>\<open>getCurrenton().stack.pop()\<close>.
\<close>

definition push_current ::
  "'k \<Rightarrow> 'x exn option \<Rightarrow> 'v \<Rightarrow> ('k, 'v) tls \<Rightarrow> 'x exn \<times> ('k, 'v) tls + ('k, 'v) tls" where
  "push_current T pf t \<sigma> =
     (case getCurrenton T \<sigma> of (c, \<sigma>1) \<Rightarrow>
        (case stack_push pf t (stack c) of
           Inl e \<Rightarrow> Inl (e, \<sigma>1)
         | Inr st \<Rightarrow> Inr (\<sigma>1(T \<mapsto> c\<lparr>stack := st\<rparr>))))"

definition pop_current :: "'k \<Rightarrow> ('k, 'v) tls \<Rightarrow> ub + ('k, 'v) tls" where
  "pop_current T \<sigma> =
     (case getCurrenton T \<sigma> of (c, \<sigma>1) \<Rightarrow>
        (case stack_pop (stack c) of
           Inl u \<Rightarrow> Inl u
         | Inr st \<Rightarrow> Inr (\<sigma>1(T \<mapsto> c\<lparr>stack := st\<rparr>))))"

text \<open>
  \<^verbatim>\<open>
  static void makeCurrent(T&& t, std::function<void()> f) {
    getCurrenton().stack.push(std::move(t));
    try { f(); } catch(...) { getCurrenton().stack.pop(); throw; }
    getCurrenton().stack.pop();
  }
  \<close>
  The push stands before the \<^verbatim>\<open>try\<close>: when it throws, \<^verbatim>\<open>makeCurrent\<close> leaves with
  that exception and has not called \<open>f\<close>. Whether the push throws is not decided by this
  code, so it is the argument \<open>pf\<close>.

  The callback \<open>f\<close> is any code of the thread: it maps the thread-local storage and the
  rest of the memory (\<open>'u\<close>) to an outcome and a new state, or to undefined behaviour. A
  \<^verbatim>\<open>std::function<void()>\<close> may wrap a callable that returns a value (\<open>'r\<close>); the call
  \<^verbatim>\<open>f()\<close> drops it, and \<^verbatim>\<open>makeCurrent\<close> is \<^verbatim>\<open>void\<close>.
\<close>

definition makeCurrent ::
  "'k \<Rightarrow> 'v \<Rightarrow> 'x exn option \<Rightarrow>
   (('k, 'v) tls \<times> 'u \<Rightarrow> ub + ('x exn + 'r) \<times> ('k, 'v) tls \<times> 'u) \<Rightarrow>
   ('k, 'v) tls \<times> 'u \<Rightarrow> ub + ('x exn + unit) \<times> ('k, 'v) tls \<times> 'u" where
  "makeCurrent T t pf f s =
     (case s of (\<sigma>, m) \<Rightarrow>
        (case push_current T pf t \<sigma> of
           Inl (e, \<sigma>0) \<Rightarrow> Inr (Inl e, \<sigma>0, m)
         | Inr \<sigma>p \<Rightarrow>
             (case f (\<sigma>p, m) of
                Inl u \<Rightarrow> Inl u
              | Inr (Inl e, \<sigma>', m') \<Rightarrow>
                  (case pop_current T \<sigma>' of
                     Inl u \<Rightarrow> Inl u
                   | Inr \<sigma>'' \<Rightarrow> Inr (Inl e, \<sigma>'', m'))
              | Inr (Inr r, \<sigma>', m') \<Rightarrow>
                  (case pop_current T \<sigma>' of
                     Inl u \<Rightarrow> Inl u
                   | Inr \<sigma>'' \<Rightarrow> Inr (Inr (), \<sigma>'', m')))))"

subsection \<open>Code that uses the class\<close>

text \<open>
  The stack is private, so the code of a thread reaches it through \<^verbatim>\<open>get\<close>,
  \<^verbatim>\<open>makeCurrent\<close> and the references that \<^verbatim>\<open>get\<close> has returned. An action is such a
  piece of code. It returns or throws; it calls \<^verbatim>\<open>get\<close> and goes on with the reference
  and the element (\<open>Get\<close>); it assigns an element through a reference it holds
  (\<open>Assign\<close>) or reads it (\<open>Deref\<close>), where the reference may come from a \<^verbatim>\<open>get\<close> of
  this action or from one before it, as for a lambda that has captured it; it calls
  \<^verbatim>\<open>makeCurrent\<close> with a callback and goes on, where the third argument of
  \<open>MakeCurrent\<close> is what the push of this call throws, if it throws; it runs a
  \<^verbatim>\<open>try\<close> block with a handler and goes on; or it works on the rest of the memory
  (\<open>Local\<close> changes it, \<open>Inspect\<close> branches on it). An action is a finite tree, so it
  terminates.
\<close>

datatype ('k, 'v, 'u, 'x, 'r) action =
    Return 'r
  | Throw "'x exn"
  | Get 'k "nat \<Rightarrow> 'v \<Rightarrow> ('k, 'v, 'u, 'x, 'r) action"
  | Assign 'k nat 'v "('k, 'v, 'u, 'x, 'r) action"
  | Deref 'k nat "'v \<Rightarrow> ('k, 'v, 'u, 'x, 'r) action"
  | MakeCurrent 'k 'v "'x exn option" "('k, 'v, 'u, 'x, 'r) action"
      "('k, 'v, 'u, 'x, 'r) action"
  | TryCatch "('k, 'v, 'u, 'x, 'r) action" "'x exn \<Rightarrow> ('k, 'v, 'u, 'x, 'r) action"
      "('k, 'v, 'u, 'x, 'r) action"
  | Local "'u \<Rightarrow> 'u" "('k, 'v, 'u, 'x, 'r) action"
  | Inspect "'u \<Rightarrow> ('k, 'v, 'u, 'x, 'r) action"

text \<open>
  \<open>exec\<close> runs an action on the storage and the memory of the thread. An exception
  leaves the action at once, except in the body of \<open>TryCatch\<close>, where the handler takes
  it; undefined behaviour ends everything. The call of \<^verbatim>\<open>makeCurrent\<close> is the function
  above, with the run of the callback as its argument.
\<close>

primrec exec ::
  "('k, 'v, 'u, 'x, 'r) action \<Rightarrow> ('k, 'v) tls \<times> 'u \<Rightarrow>
   ub + ('x exn + 'r) \<times> ('k, 'v) tls \<times> 'u" where
  "exec (Return r) = (\<lambda>s. Inr (Inr r, s))"
| "exec (Throw e) = (\<lambda>s. Inr (Inl e, s))"
| "exec (Get T k) = (\<lambda>s.
     case get T (fst s) of
       Inl u \<Rightarrow> Inl u
     | Inr (Inl e, \<sigma>') \<Rightarrow> Inr (Inl e, \<sigma>', snd s)
     | Inr (Inr (i, v), \<sigma>') \<Rightarrow> exec (k i v) (\<sigma>', snd s))"
| "exec (Assign T i v k) = (\<lambda>s.
     case assign T i v (fst s) of
       Inl u \<Rightarrow> Inl u
     | Inr \<sigma>' \<Rightarrow> exec k (\<sigma>', snd s))"
| "exec (Deref T i k) = (\<lambda>s.
     case deref T i (fst s) of
       Inl u \<Rightarrow> Inl u
     | Inr v \<Rightarrow> exec (k v) s)"
| "exec (MakeCurrent T t pf f k) = (\<lambda>s.
     case makeCurrent T t pf (exec f) s of
       Inl u \<Rightarrow> Inl u
     | Inr (Inl e, s') \<Rightarrow> Inr (Inl e, s')
     | Inr (Inr u, s') \<Rightarrow> exec k s')"
| "exec (TryCatch b h k) = (\<lambda>s.
     case exec b s of
       Inl u \<Rightarrow> Inl u
     | Inr (Inr r, s') \<Rightarrow> exec k s'
     | Inr (Inl e, s') \<Rightarrow>
         (case exec (h e) s' of
            Inl u \<Rightarrow> Inl u
          | Inr (Inl e', s'') \<Rightarrow> Inr (Inl e', s'')
          | Inr (Inr r, s'') \<Rightarrow> exec k s''))"
| "exec (Local g k) = (\<lambda>s. exec k (fst s, g (snd s)))"
| "exec (Inspect q) = (\<lambda>s. exec (q (snd s)) s)"

subsection \<open>What a run assigns\<close>

text \<open>
  \<open>assigned a s\<close> is the set of the references through which the run of \<open>a\<close> from \<open>s\<close>
  assigns. \<open>same_but \<sigma> \<sigma>' W\<close> says that every stack has in \<open>\<sigma>'\<close> the size it has in
  \<open>\<sigma>\<close>, and that every element of \<open>\<sigma>\<close> has kept its value unless a reference in \<open>W\<close>
  refers to it.
\<close>

primrec assigned ::
  "('k, 'v, 'u, 'x, 'r) action \<Rightarrow> ('k, 'v) tls \<times> 'u \<Rightarrow> ('k \<times> nat) set" where
  "assigned (Return r) = (\<lambda>s. {})"
| "assigned (Throw e) = (\<lambda>s. {})"
| "assigned (Get T k) = (\<lambda>s.
     case (get T (fst s) :: ub + ('x exn + nat \<times> 'v) \<times> ('k, 'v) tls) of
       Inl u \<Rightarrow> {}
     | Inr (Inl e, \<sigma>') \<Rightarrow> {}
     | Inr (Inr (i, v), \<sigma>') \<Rightarrow> assigned (k i v) (\<sigma>', snd s))"
| "assigned (Assign T i v k) = (\<lambda>s.
     case assign T i v (fst s) of
       Inl u \<Rightarrow> {}
     | Inr \<sigma>' \<Rightarrow> insert (T, i) (assigned k (\<sigma>', snd s)))"
| "assigned (Deref T i k) = (\<lambda>s.
     case deref T i (fst s) of
       Inl u \<Rightarrow> {}
     | Inr v \<Rightarrow> assigned (k v) s)"
| "assigned (MakeCurrent T t pf f k) = (\<lambda>s.
     case push_current T pf t (fst s) of
       Inl x \<Rightarrow> {}
     | Inr \<sigma>p \<Rightarrow>
         assigned f (\<sigma>p, snd s) \<union>
         (case makeCurrent T t pf (exec f) s of
            Inl u \<Rightarrow> {}
          | Inr (Inl e, s') \<Rightarrow> {}
          | Inr (Inr u, s') \<Rightarrow> assigned k s'))"
| "assigned (TryCatch b h k) = (\<lambda>s.
     assigned b s \<union>
     (case exec b s of
        Inl u \<Rightarrow> {}
      | Inr (Inr r, s') \<Rightarrow> assigned k s'
      | Inr (Inl e, s') \<Rightarrow>
          assigned (h e) s' \<union>
          (case exec (h e) s' of
             Inl u \<Rightarrow> {}
           | Inr (Inl e', s'') \<Rightarrow> {}
           | Inr (Inr r, s'') \<Rightarrow> assigned k s'')))"
| "assigned (Local g k) = (\<lambda>s. assigned k (fst s, g (snd s)))"
| "assigned (Inspect q) = (\<lambda>s. assigned (q (snd s)) s)"

definition same_but :: "('k, 'v) tls \<Rightarrow> ('k, 'v) tls \<Rightarrow> ('k \<times> nat) set \<Rightarrow> bool" where
  "same_but \<sigma> \<sigma>' W =
     (\<forall>T. length (stack_of \<sigma>' T) = length (stack_of \<sigma> T) \<and>
          (\<forall>i. length (stack_of \<sigma> T) \<le> i \<or> (T, i) \<in> W \<or>
               rev (stack_of \<sigma>' T) ! i = rev (stack_of \<sigma> T) ! i))"

subsection \<open>Dynamic scoping, as the specification words it\<close>

text \<open>
  The specification reads the class as a scoped override: inside the dynamic extent of
  \<^verbatim>\<open>withCurrent(v, action)\<close> the current value is \<open>v\<close>, and \<^verbatim>\<open>current()\<close> gives the
  live value of the innermost extent that is active. \<open>spec_exec\<close> runs an action under
  this reading and knows no stack, no push and no pop. \<open>d T\<close> counts the active extents
  of instantiation \<open>T\<close>, and the store \<open>st\<close> holds the value of extent number \<open>i\<close> of
  \<open>T\<close>, counted from the outermost, in the cell \<open>(T, i)\<close>. \<^verbatim>\<open>withCurrent\<close> runs its
  action under one more extent, whose cell holds the value, and runs what follows it
  under the count from before: the extent ends where the action ends, however it ends.
  When the value cannot be installed, no extent is opened and the action does not run.
  \<^verbatim>\<open>current()\<close> gives the cell of the innermost active extent; the cell of an active
  extent can be read and assigned. It is the reference that \<open>exec\<close> is compared with.

  \<open>depth_of\<close> and \<open>cells_of\<close> read the extents and the cells off the stacks at the start
  of a run, and \<open>represents \<sigma> d st\<close> says that the stacks of \<open>\<sigma>\<close> hold, from the bottom
  to the top, the cells of the \<open>d\<close> active extents of \<open>st\<close>.
\<close>

primrec spec_exec ::
  "('k, 'v, 'u, 'x, 'r) action \<Rightarrow> ('k \<Rightarrow> nat) \<Rightarrow> ('k \<times> nat \<Rightarrow> 'v) \<Rightarrow> 'u \<Rightarrow>
   ub + ('x exn + 'r) \<times> ('k \<times> nat \<Rightarrow> 'v) \<times> 'u" where
  "spec_exec (Return r) = (\<lambda>d st m. Inr (Inr r, st, m))"
| "spec_exec (Throw e) = (\<lambda>d st m. Inr (Inl e, st, m))"
| "spec_exec (Get T k) = (\<lambda>d st m.
     case d T of
       0 \<Rightarrow> Inr (Inl (runtime_error ''No current object''), st, m)
     | Suc n \<Rightarrow> spec_exec (k n (st (T, n))) d st m)"
| "spec_exec (Assign T i v k) = (\<lambda>d st m.
     if i < d T then spec_exec k d (st((T, i) := v)) m else Inl dangling_reference)"
| "spec_exec (Deref T i k) = (\<lambda>d st m.
     if i < d T then spec_exec (k (st (T, i))) d st m else Inl dangling_reference)"
| "spec_exec (MakeCurrent T t pf f k) = (\<lambda>d st m.
     case pf of
       Some e \<Rightarrow> Inr (Inl e, st, m)
     | None \<Rightarrow>
         (case spec_exec f (d(T := Suc (d T))) (st((T, d T) := t)) m of
            Inl u \<Rightarrow> Inl u
          | Inr (Inl e, st', m') \<Rightarrow> Inr (Inl e, st', m')
          | Inr (Inr r, st', m') \<Rightarrow> spec_exec k d st' m'))"
| "spec_exec (TryCatch b h k) = (\<lambda>d st m.
     case spec_exec b d st m of
       Inl u \<Rightarrow> Inl u
     | Inr (Inr r, st', m') \<Rightarrow> spec_exec k d st' m'
     | Inr (Inl e, st', m') \<Rightarrow>
         (case spec_exec (h e) d st' m' of
            Inl u \<Rightarrow> Inl u
          | Inr (Inl e', st'', m'') \<Rightarrow> Inr (Inl e', st'', m'')
          | Inr (Inr r, st'', m'') \<Rightarrow> spec_exec k d st'' m''))"
| "spec_exec (Local g k) = (\<lambda>d st m. spec_exec k d st (g m))"
| "spec_exec (Inspect q) = (\<lambda>d st m. spec_exec (q m) d st m)"

definition depth_of :: "('k, 'v) tls \<Rightarrow> 'k \<Rightarrow> nat" where
  "depth_of \<sigma> T = length (stack_of \<sigma> T)"

definition cells_of :: "('k, 'v) tls \<Rightarrow> 'k \<times> nat \<Rightarrow> 'v" where
  "cells_of \<sigma> = (\<lambda>(T, i). rev (stack_of \<sigma> T) ! i)"

definition represents :: "('k, 'v) tls \<Rightarrow> ('k \<Rightarrow> nat) \<Rightarrow> ('k \<times> nat \<Rightarrow> 'v) \<Rightarrow> bool" where
  "represents \<sigma> d st = (\<forall>T. stack_of \<sigma> T = map (\<lambda>i. st (T, i)) (rev [0..<d T]))"

subsection \<open>Instantiations an action works on\<close>

primrec registries :: "('k, 'v, 'u, 'x, 'r) action \<Rightarrow> 'k set" where
  "registries (Return r) = {}"
| "registries (Throw e) = {}"
| "registries (Get T k) = insert T (\<Union>i v. registries (k i v))"
| "registries (Assign T i v k) = insert T (registries k)"
| "registries (Deref T i k) = insert T (\<Union>v. registries (k v))"
| "registries (MakeCurrent T t pf f k) = insert T (registries f \<union> registries k)"
| "registries (TryCatch b h k) = registries b \<union> (\<Union>e. registries (h e)) \<union> registries k"
| "registries (Local g k) = registries k"
| "registries (Inspect q) = (\<Union>m. registries (q m))"

subsection \<open>Counting the invocations of a callback\<close>


subsection \<open>Runs of the demonstration\<close>

text \<open>
  The second check of \<^verbatim>\<open>main\<close>, cut down to two levels: 10 is made current and read,
  11 is made current and read, the inner callback throws, nothing catches the exception
  before it has left both calls, and the handler of the caller reads again. The memory is
  the list of the values read.
\<close>

definition inner_fails :: "(string, int, int list, string, unit) action" where
  "inner_fails =
     Get ''Integer'' (\<lambda>i b. Local (\<lambda>m. m @ [b]) (Throw (thrown ''Oh no.'')))"

definition outer_call :: "(string, int, int list, string, unit) action" where
  "outer_call =
     Get ''Integer'' (\<lambda>i a. Local (\<lambda>m. m @ [a])
       (MakeCurrent ''Integer'' 11 None inner_fails (Return ())))"

definition scenario :: "(string, int, int list, string, unit) action" where
  "scenario =
     TryCatch (MakeCurrent ''Integer'' 10 None outer_call (Return ()))
       (\<lambda>e. Get ''Integer'' (\<lambda>i c. Local (\<lambda>m. m @ [c]) (Return ())))
       (Return ())"

text \<open>
  A callback that has captured the reference that \<^verbatim>\<open>get\<close> returned before the call,
  when the bottom element was on top, and assigns through it:
  \<^verbatim>\<open>Integer& r = get(); makeCurrent({10}, [&]{ r = Integer(99); });\<close>
\<close>

definition assign_below :: "(string, int, int list, string, unit) action" where
  "assign_below = Assign ''Integer'' 0 99 (Return ())"

text \<open>
  Code that works on the instantiation \<^verbatim>\<open>Currenton<A>\<close> only: it makes 1 current for
  a callback that reads it, and returns 0.
\<close>

definition only_A :: "(string, int, unit, unit, int) action" where
  "only_A = MakeCurrent ''A'' 1 None (Get ''A'' (\<lambda>i v. Return v)) (Return 0)"

section \<open>Properties\<close>

subsection \<open>The operations on the storage\<close>

lemmas evals = makeCurrent_def push_current_def pop_current_def get_def getCurrenton_def
  assign_def deref_def stack_empty_def stack_push_def stack_pop_def stack_top_def
  stack_at_def stack_assign_def

lemma stack_of_getCurrenton: "stack_of (snd (getCurrenton T \<sigma>)) = stack_of \<sigma>"
  by (rule ext) (simp add: getCurrenton_def stack_of_def split: option.splits)

lemma get_eq:
  "get T \<sigma> =
     Inr (case stack_of \<sigma> T of
            [] \<Rightarrow> Inl (runtime_error ''No current object'')
          | v # st \<Rightarrow> Inr (length st, v),
          snd (getCurrenton T \<sigma>))"
  by (simp add: get_def getCurrenton_def stack_of_def stack_empty_def stack_top_def
      split: option.splits list.splits)

lemma push_current_eq:
  "push_current T pf t \<sigma> =
     (case pf of
        Some e \<Rightarrow> Inl (e, snd (getCurrenton T \<sigma>))
      | None \<Rightarrow>
          Inr ((snd (getCurrenton T \<sigma>))
                 (T \<mapsto> (fst (getCurrenton T \<sigma>))\<lparr>stack := t # stack_of \<sigma> T\<rparr>)))"
  by (cases "\<sigma> T"; cases pf)
    (simp_all add: push_current_def getCurrenton_def stack_of_def stack_push_def)

lemma push_current_Inr:
  assumes "push_current T pf t \<sigma> = Inr \<sigma>p"
  shows "pf = None" and "stack_of \<sigma>p = (stack_of \<sigma>)(T := t # stack_of \<sigma> T)"
proof -
  from assms show pf: "pf = None"
    by (cases pf) (simp_all add: push_current_eq)
  with assms have "\<sigma>p = (snd (getCurrenton T \<sigma>))
      (T \<mapsto> (fst (getCurrenton T \<sigma>))\<lparr>stack := t # stack_of \<sigma> T\<rparr>)"
    by (simp add: push_current_eq)
  then have "stack_of \<sigma>p U = ((stack_of \<sigma>)(T := t # stack_of \<sigma> T)) U" for U
    using stack_of_getCurrenton [of T \<sigma>] by (simp add: stack_of_def fun_eq_iff)
  then show "stack_of \<sigma>p = (stack_of \<sigma>)(T := t # stack_of \<sigma> T)"
    by (rule ext)
qed

lemma push_current_Inl:
  assumes "push_current T pf t \<sigma> = Inl (e, \<sigma>0)"
  shows "pf = Some e" and "\<sigma>0 = snd (getCurrenton T \<sigma>)"
  using assms by (cases pf; simp add: push_current_eq)+

lemma push_current_None: "\<exists>\<sigma>p. push_current T None t \<sigma> = Inr \<sigma>p"
  by (simp add: push_current_eq)

lemma pop_current_Cons:
  assumes "stack_of \<sigma> T = v # st"
  shows "\<exists>\<sigma>'. pop_current T \<sigma> = Inr \<sigma>' \<and> stack_of \<sigma>' = (stack_of \<sigma>)(T := st)"
proof -
  from assms obtain c where c: "\<sigma> T = Some c" "stack c = v # st"
    by (cases "\<sigma> T") (simp_all add: stack_of_def)
  then have "pop_current T \<sigma> = Inr (\<sigma>(T \<mapsto> c\<lparr>stack := st\<rparr>))"
    by (simp add: pop_current_def getCurrenton_def stack_pop_def)
  moreover have "stack_of (\<sigma>(T \<mapsto> c\<lparr>stack := st\<rparr>)) = (stack_of \<sigma>)(T := st)"
    by (rule ext) (simp add: stack_of_def)
  ultimately show ?thesis by simp
qed

lemma pop_current_Nil: "stack_of \<sigma> T = [] \<Longrightarrow> pop_current T \<sigma> = Inl pop_of_empty"
  by (cases "\<sigma> T") (simp_all add: pop_current_def getCurrenton_def stack_of_def stack_pop_def)

lemma deref_eq:
  "deref T i \<sigma> =
     (if i < length (stack_of \<sigma> T) then Inr (rev (stack_of \<sigma> T) ! i)
      else Inl dangling_reference)"
  by (cases "\<sigma> T") (simp_all add: deref_def stack_of_def stack_at_def)

lemma assign_dangling:
  "\<not> i < length (stack_of \<sigma> T) \<Longrightarrow> assign T i v \<sigma> = Inl dangling_reference"
  by (cases "\<sigma> T") (simp_all add: assign_def stack_of_def stack_assign_def)

lemma assign_live:
  assumes "i < length (stack_of \<sigma> T)"
  shows "\<exists>\<sigma>'. assign T i v \<sigma> = Inr \<sigma>' \<and>
           stack_of \<sigma>' = (stack_of \<sigma>)(T := rev ((rev (stack_of \<sigma> T))[i := v]))"
proof -
  from assms obtain c where c: "\<sigma> T = Some c" "stack_of \<sigma> T = stack c"
    by (cases "\<sigma> T") (simp_all add: stack_of_def)
  with assms have "assign T i v \<sigma> = Inr (\<sigma>(T \<mapsto> c\<lparr>stack := rev ((rev (stack c))[i := v])\<rparr>))"
    by (simp add: assign_def stack_assign_def)
  moreover have "stack_of (\<sigma>(T \<mapsto> c\<lparr>stack := rev ((rev (stack c))[i := v])\<rparr>)) =
      (stack_of \<sigma>)(T := rev ((rev (stack_of \<sigma> T))[i := v]))"
    using c by (intro ext) (simp add: stack_of_def)
  ultimately show ?thesis by simp
qed

lemma exec_Get:
  "exec (Get T k) (\<sigma>, m) =
     (case stack_of \<sigma> T of
        [] \<Rightarrow> Inr (Inl (runtime_error ''No current object''), snd (getCurrenton T \<sigma>), m)
      | v # st \<Rightarrow> exec (k (length st) v) (snd (getCurrenton T \<sigma>), m))"
  by (simp add: get_eq split: list.splits)

lemma assigned_Get:
  "assigned (Get T k) (\<sigma>, m) =
     (case stack_of \<sigma> T of
        [] \<Rightarrow> {}
      | v # st \<Rightarrow> assigned (k (length st) v) (snd (getCurrenton T \<sigma>), m))"
  by (simp add: get_eq split: list.splits)

subsection \<open>What a run leaves of the stacks\<close>

lemma same_but_refl: "stack_of \<sigma>' = stack_of \<sigma> \<Longrightarrow> same_but \<sigma> \<sigma>' W"
  by (simp add: same_but_def)

lemma same_but_trans:
  assumes "same_but \<sigma> \<sigma>1 W1" and "same_but \<sigma>1 \<sigma>2 W2"
  shows "same_but \<sigma> \<sigma>2 (W1 \<union> W2)"
  unfolding same_but_def
proof (intro allI conjI)
  fix T
  from assms show "length (stack_of \<sigma>2 T) = length (stack_of \<sigma> T)"
    by (simp add: same_but_def)
next
  fix T i
  from assms have l: "length (stack_of \<sigma>1 T) = length (stack_of \<sigma> T)"
    by (simp add: same_but_def)
  from assms(1) have a: "length (stack_of \<sigma> T) \<le> i \<or> (T, i) \<in> W1 \<or>
      rev (stack_of \<sigma>1 T) ! i = rev (stack_of \<sigma> T) ! i"
    unfolding same_but_def by blast
  from assms(2) have b: "length (stack_of \<sigma>1 T) \<le> i \<or> (T, i) \<in> W2 \<or>
      rev (stack_of \<sigma>2 T) ! i = rev (stack_of \<sigma>1 T) ! i"
    unfolding same_but_def by blast
  from a b l show "length (stack_of \<sigma> T) \<le> i \<or> (T, i) \<in> W1 \<union> W2 \<or>
      rev (stack_of \<sigma>2 T) ! i = rev (stack_of \<sigma> T) ! i"
    by auto
qed

lemma same_but_mono: "same_but \<sigma> \<sigma>' W \<Longrightarrow> W \<subseteq> W' \<Longrightarrow> same_but \<sigma> \<sigma>' W'"
  unfolding same_but_def by blast

lemma same_but_unassigned:
  assumes "same_but \<sigma> \<sigma>' W" and "\<And>T i. (T, i) \<in> W \<Longrightarrow> length (stack_of \<sigma> T) \<le> i"
  shows "stack_of \<sigma>' = stack_of \<sigma>"
proof
  fix T
  from assms(1) have l: "length (stack_of \<sigma>' T) = length (stack_of \<sigma> T)"
    by (simp add: same_but_def)
  have "rev (stack_of \<sigma>' T) = rev (stack_of \<sigma> T)"
  proof (rule nth_equalityI)
    from l show "length (rev (stack_of \<sigma>' T)) = length (rev (stack_of \<sigma> T))" by simp
  next
    fix i
    assume "i < length (rev (stack_of \<sigma>' T))"
    with l have i: "i < length (stack_of \<sigma> T)" by simp
    from assms(1) have "length (stack_of \<sigma> T) \<le> i \<or> (T, i) \<in> W \<or>
        rev (stack_of \<sigma>' T) ! i = rev (stack_of \<sigma> T) ! i"
      unfolding same_but_def by blast
    with i assms(2) [of T i] show "rev (stack_of \<sigma>' T) ! i = rev (stack_of \<sigma> T) ! i"
      by auto
  qed
  then show "stack_of \<sigma>' T = stack_of \<sigma> T" by simp
qed

lemma same_but_nothing: "same_but \<sigma> \<sigma>' {} \<Longrightarrow> stack_of \<sigma>' = stack_of \<sigma>"
  by (erule same_but_unassigned) simp

lemma same_but_assign:
  assumes "i < length (stack_of \<sigma> T)"
    and "stack_of \<sigma>' = (stack_of \<sigma>)(T := rev ((rev (stack_of \<sigma> T))[i := v]))"
  shows "same_but \<sigma> \<sigma>' {(T, i)}"
  unfolding same_but_def
proof (intro allI conjI)
  fix U
  from assms show "length (stack_of \<sigma>' U) = length (stack_of \<sigma> U)" by simp
next
  fix U j
  show "length (stack_of \<sigma> U) \<le> j \<or> (U, j) \<in> {(T, i)} \<or>
      rev (stack_of \<sigma>' U) ! j = rev (stack_of \<sigma> U) ! j"
  proof (cases "U = T \<and> j = i")
    case True
    then show ?thesis by simp
  next
    case False
    with assms(2) have "rev (stack_of \<sigma>' U) ! j = rev (stack_of \<sigma> U) ! j"
      by (cases "U = T") simp_all
    then show ?thesis by simp
  qed
qed

lemma pop_after_push:
  assumes p: "stack_of \<sigma>p = (stack_of \<sigma>)(T := t # stack_of \<sigma> T)"
    and s: "same_but \<sigma>p \<sigma>1 W"
  shows "\<exists>\<sigma>2. pop_current T \<sigma>1 = Inr \<sigma>2 \<and>
           stack_of \<sigma>2 = (stack_of \<sigma>1)(T := tl (stack_of \<sigma>1 T)) \<and>
           same_but \<sigma> \<sigma>2 W"
proof -
  from s p have l1: "length (stack_of \<sigma>1 T) = Suc (length (stack_of \<sigma> T))"
    by (simp add: same_but_def)
  then obtain x rest where xr: "stack_of \<sigma>1 T = x # rest"
    by (cases "stack_of \<sigma>1 T") simp_all
  from pop_current_Cons [OF xr] obtain \<sigma>2 where
    pop: "pop_current T \<sigma>1 = Inr \<sigma>2" and s2: "stack_of \<sigma>2 = (stack_of \<sigma>1)(T := rest)"
    by blast
  from xr s2 have tl: "stack_of \<sigma>2 = (stack_of \<sigma>1)(T := tl (stack_of \<sigma>1 T))" by simp
  have "same_but \<sigma> \<sigma>2 W"
    unfolding same_but_def
  proof (intro allI conjI)
    fix U
    from s have "length (stack_of \<sigma>1 U) = length (stack_of \<sigma>p U)"
      by (simp add: same_but_def)
    with p s2 xr show "length (stack_of \<sigma>2 U) = length (stack_of \<sigma> U)"
      by (cases "U = T") simp_all
  next
    fix U i
    from s have a: "length (stack_of \<sigma>p U) \<le> i \<or> (U, i) \<in> W \<or>
        rev (stack_of \<sigma>1 U) ! i = rev (stack_of \<sigma>p U) ! i"
      unfolding same_but_def by blast
    show "length (stack_of \<sigma> U) \<le> i \<or> (U, i) \<in> W \<or>
        rev (stack_of \<sigma>2 U) ! i = rev (stack_of \<sigma> U) ! i"
    proof (cases "U = T")
      case False
      with a p s2 show ?thesis by simp
    next
      case True
      show ?thesis
      proof (cases "i < length (stack_of \<sigma> T)")
        case False
        with True show ?thesis by simp
      next
        case i: True
        from l1 xr have lr: "length rest = length (stack_of \<sigma> T)" by simp
        from True s2 have "rev (stack_of \<sigma>2 U) ! i = rev rest ! i" by simp
        also from i lr have "\<dots> = rev (stack_of \<sigma>1 T) ! i"
          by (simp add: xr nth_append)
        finally have e1: "rev (stack_of \<sigma>2 U) ! i = rev (stack_of \<sigma>1 T) ! i" .
        from i p have e2: "rev (stack_of \<sigma>p T) ! i = rev (stack_of \<sigma> T) ! i"
          by (simp add: nth_append)
        from a True i p e1 e2 show ?thesis by auto
      qed
    qed
  qed
  with pop tl show ?thesis by blast
qed

text \<open>
  A run ends in no undefined behaviour but the use of a dangling reference, and a run that
  completes leaves every stack with its size and with its elements, up to the elements
  it assigned.
\<close>

lemma exec_frame:
  "exec a (\<sigma>, m) = Inl dangling_reference \<or>
   (\<exists>r \<sigma>' m'. exec a (\<sigma>, m) = Inr (r, \<sigma>', m') \<and> same_but \<sigma> \<sigma>' (assigned a (\<sigma>, m)))"
proof (induction a arbitrary: \<sigma> m)
  case (Return r)
  show ?case by (simp add: same_but_refl)
next
  case (Throw e)
  show ?case by (simp add: same_but_refl)
next
  case (Get T k)
  have g: "same_but \<sigma> (snd (getCurrenton T \<sigma>)) {}"
    by (rule same_but_refl) (rule stack_of_getCurrenton)
  show ?case
  proof (cases "stack_of \<sigma> T")
    case Nil
    with g show ?thesis
      by (simp add: exec_Get assigned_Get del: exec.simps assigned.simps)
  next
    case (Cons v st)
    have "exec (k (length st) v) (snd (getCurrenton T \<sigma>), m) = Inl dangling_reference \<or>
      (\<exists>r \<sigma>' m'. exec (k (length st) v) (snd (getCurrenton T \<sigma>), m) = Inr (r, \<sigma>', m') \<and>
        same_but (snd (getCurrenton T \<sigma>)) \<sigma>'
          (assigned (k (length st) v) (snd (getCurrenton T \<sigma>), m)))"
      by (rule Get [OF rangeI rangeI])
    then show ?thesis
    proof
      assume "exec (k (length st) v) (snd (getCurrenton T \<sigma>), m) = Inl dangling_reference"
      with Cons show ?thesis
        by (simp add: exec_Get del: exec.simps)
    next
      assume "\<exists>r \<sigma>' m'. exec (k (length st) v) (snd (getCurrenton T \<sigma>), m) = Inr (r, \<sigma>', m') \<and>
        same_but (snd (getCurrenton T \<sigma>)) \<sigma>'
          (assigned (k (length st) v) (snd (getCurrenton T \<sigma>), m))"
      then obtain r \<sigma>' m' where
        e: "exec (k (length st) v) (snd (getCurrenton T \<sigma>), m) = Inr (r, \<sigma>', m')"
        and s: "same_but (snd (getCurrenton T \<sigma>)) \<sigma>'
          (assigned (k (length st) v) (snd (getCurrenton T \<sigma>), m))"
        by blast
      from same_but_trans [OF g s]
      have "same_but \<sigma> \<sigma>' (assigned (k (length st) v) (snd (getCurrenton T \<sigma>), m))"
        by simp
      with e Cons show ?thesis
        by (simp add: exec_Get assigned_Get del: exec.simps assigned.simps)
    qed
  qed
next
  case (Assign T i v k)
  show ?case
  proof (cases "i < length (stack_of \<sigma> T)")
    case False
    then show ?thesis by (simp add: assign_dangling)
  next
    case True
    from assign_live [OF True, of v] obtain \<sigma>1 where
      a: "assign T i v \<sigma> = Inr \<sigma>1"
      and s1: "stack_of \<sigma>1 = (stack_of \<sigma>)(T := rev ((rev (stack_of \<sigma> T))[i := v]))"
      by blast
    from same_but_assign [OF True s1] have sb: "same_but \<sigma> \<sigma>1 {(T, i)}" .
    from Assign [of \<sigma>1 m] show ?thesis
    proof
      assume "exec k (\<sigma>1, m) = Inl dangling_reference"
      with a show ?thesis by simp
    next
      assume "\<exists>r \<sigma>' m'. exec k (\<sigma>1, m) = Inr (r, \<sigma>', m') \<and>
        same_but \<sigma>1 \<sigma>' (assigned k (\<sigma>1, m))"
      then obtain r \<sigma>' m' where e: "exec k (\<sigma>1, m) = Inr (r, \<sigma>', m')"
        and s: "same_but \<sigma>1 \<sigma>' (assigned k (\<sigma>1, m))"
        by blast
      from same_but_trans [OF sb s]
      have "same_but \<sigma> \<sigma>' (insert (T, i) (assigned k (\<sigma>1, m)))" by simp
      with a e show ?thesis by simp
    qed
  qed
next
  case (Deref T i k)
  show ?case
  proof (cases "i < length (stack_of \<sigma> T)")
    case False
    then show ?thesis by (simp add: deref_eq)
  next
    case True
    with Deref [of "k (rev (stack_of \<sigma> T) ! i)" \<sigma> m] show ?thesis
      by (simp add: deref_eq)
  qed
next
  case (MakeCurrent T t pf f k)
  show ?case
  proof (cases pf)
    case (Some e)
    then have p: "push_current T pf t \<sigma> = Inl (e, snd (getCurrenton T \<sigma>))"
      by (simp add: push_current_eq)
    have "same_but \<sigma> (snd (getCurrenton T \<sigma>)) {}"
      by (rule same_but_refl) (rule stack_of_getCurrenton)
    with p show ?thesis by (simp add: makeCurrent_def)
  next
    case None
    with push_current_None [of T t \<sigma>] obtain \<sigma>p where
      p: "push_current T pf t \<sigma> = Inr \<sigma>p" by blast
    note sp = push_current_Inr(2) [OF p]
    from MakeCurrent.IH(1) [of \<sigma>p m] show ?thesis
    proof
      assume "exec f (\<sigma>p, m) = Inl dangling_reference"
      with p show ?thesis by (simp add: makeCurrent_def)
    next
      assume "\<exists>r \<sigma>' m'. exec f (\<sigma>p, m) = Inr (r, \<sigma>', m') \<and>
        same_but \<sigma>p \<sigma>' (assigned f (\<sigma>p, m))"
      then obtain r1 \<sigma>1 m1 where f: "exec f (\<sigma>p, m) = Inr (r1, \<sigma>1, m1)"
        and s1: "same_but \<sigma>p \<sigma>1 (assigned f (\<sigma>p, m))"
        by blast
      from pop_after_push [OF sp s1] obtain \<sigma>2 where
        pop: "pop_current T \<sigma>1 = Inr \<sigma>2"
        and s2: "same_but \<sigma> \<sigma>2 (assigned f (\<sigma>p, m))"
        by blast
      show ?thesis
      proof (cases r1)
        case (Inl e)
        with p f pop have mc: "makeCurrent T t pf (exec f) (\<sigma>, m) = Inr (Inl e, \<sigma>2, m1)"
          by (simp add: makeCurrent_def)
        with p s2 show ?thesis by simp
      next
        case (Inr x)
        with p f pop have mc: "makeCurrent T t pf (exec f) (\<sigma>, m) = Inr (Inr (), \<sigma>2, m1)"
          by (simp add: makeCurrent_def)
        from MakeCurrent.IH(2) [of \<sigma>2 m1] show ?thesis
        proof
          assume "exec k (\<sigma>2, m1) = Inl dangling_reference"
          with mc show ?thesis by simp
        next
          assume "\<exists>r \<sigma>' m'. exec k (\<sigma>2, m1) = Inr (r, \<sigma>', m') \<and>
            same_but \<sigma>2 \<sigma>' (assigned k (\<sigma>2, m1))"
          then obtain r3 \<sigma>3 m3 where k: "exec k (\<sigma>2, m1) = Inr (r3, \<sigma>3, m3)"
            and s3: "same_but \<sigma>2 \<sigma>3 (assigned k (\<sigma>2, m1))"
            by blast
          from same_but_trans [OF s2 s3] mc p k show ?thesis by simp
        qed
      qed
    qed
  qed
next
  case (TryCatch b h k)
  from TryCatch.IH(1) [of \<sigma> m] show ?case
  proof
    assume "exec b (\<sigma>, m) = Inl dangling_reference"
    then show ?thesis by simp
  next
    assume "\<exists>r \<sigma>' m'. exec b (\<sigma>, m) = Inr (r, \<sigma>', m') \<and> same_but \<sigma> \<sigma>' (assigned b (\<sigma>, m))"
    then obtain r1 \<sigma>1 m1 where b: "exec b (\<sigma>, m) = Inr (r1, \<sigma>1, m1)"
      and s1: "same_but \<sigma> \<sigma>1 (assigned b (\<sigma>, m))"
      by blast
    show ?thesis
    proof (cases r1)
      case (Inr x)
      from TryCatch.IH(3) [of \<sigma>1 m1] show ?thesis
      proof
        assume "exec k (\<sigma>1, m1) = Inl dangling_reference"
        with Inr b show ?thesis by simp
      next
        assume "\<exists>r \<sigma>' m'. exec k (\<sigma>1, m1) = Inr (r, \<sigma>', m') \<and>
          same_but \<sigma>1 \<sigma>' (assigned k (\<sigma>1, m1))"
        then obtain r3 \<sigma>3 m3 where k: "exec k (\<sigma>1, m1) = Inr (r3, \<sigma>3, m3)"
          and s3: "same_but \<sigma>1 \<sigma>3 (assigned k (\<sigma>1, m1))"
          by blast
        from same_but_trans [OF s1 s3] Inr b k show ?thesis by simp
      qed
    next
      case (Inl e)
      note E = this
      have "exec (h e) (\<sigma>1, m1) = Inl dangling_reference \<or>
        (\<exists>r \<sigma>' m'. exec (h e) (\<sigma>1, m1) = Inr (r, \<sigma>', m') \<and>
          same_but \<sigma>1 \<sigma>' (assigned (h e) (\<sigma>1, m1)))"
        by (rule TryCatch.IH(2) [OF rangeI])
      then show ?thesis
      proof
        assume "exec (h e) (\<sigma>1, m1) = Inl dangling_reference"
        with E b show ?thesis by simp
      next
        assume "\<exists>r \<sigma>' m'. exec (h e) (\<sigma>1, m1) = Inr (r, \<sigma>', m') \<and>
          same_but \<sigma>1 \<sigma>' (assigned (h e) (\<sigma>1, m1))"
        then obtain r2 \<sigma>2 m2 where h: "exec (h e) (\<sigma>1, m1) = Inr (r2, \<sigma>2, m2)"
          and s2: "same_but \<sigma>1 \<sigma>2 (assigned (h e) (\<sigma>1, m1))"
          by blast
        note s12 = same_but_trans [OF s1 s2]
        show ?thesis
        proof (cases r2)
          case (Inl e')
          with E b h s12 show ?thesis by simp
        next
          case (Inr x)
          from TryCatch.IH(3) [of \<sigma>2 m2] show ?thesis
          proof
            assume "exec k (\<sigma>2, m2) = Inl dangling_reference"
            with Inr E b h show ?thesis by simp
          next
            assume "\<exists>r \<sigma>' m'. exec k (\<sigma>2, m2) = Inr (r, \<sigma>', m') \<and>
              same_but \<sigma>2 \<sigma>' (assigned k (\<sigma>2, m2))"
            then obtain r3 \<sigma>3 m3 where k: "exec k (\<sigma>2, m2) = Inr (r3, \<sigma>3, m3)"
              and s3: "same_but \<sigma>2 \<sigma>3 (assigned k (\<sigma>2, m2))"
              by blast
            from same_but_trans [OF s12 s3] Inr E b h k show ?thesis
              by (simp add: Un_assoc)
          qed
        qed
      qed
    qed
  qed
next
  case (Local g k)
  from Local [of \<sigma> "g m"] show ?case by simp
next
  case (Inspect q)
  from Inspect [of "q m" \<sigma> m] show ?case by simp
qed

lemma makeCurrent_run:
  assumes p: "push_current T pf t \<sigma> = Inr \<sigma>p"
    and f: "exec f (\<sigma>p, m) = Inr (res, \<sigma>1, m1)"
  shows "\<exists>\<sigma>2. same_but \<sigma>p \<sigma>1 (assigned f (\<sigma>p, m)) \<and>
           pop_current T \<sigma>1 = Inr \<sigma>2 \<and>
           stack_of \<sigma>2 = (stack_of \<sigma>1)(T := tl (stack_of \<sigma>1 T)) \<and>
           same_but \<sigma> \<sigma>2 (assigned f (\<sigma>p, m)) \<and>
           makeCurrent T t pf (exec f) (\<sigma>, m) =
             Inr (case res of Inl e \<Rightarrow> Inl e | Inr r \<Rightarrow> Inr (), \<sigma>2, m1)"
proof -
  from exec_frame [of f \<sigma>p m] f have s1: "same_but \<sigma>p \<sigma>1 (assigned f (\<sigma>p, m))"
    by simp
  from pop_after_push [OF push_current_Inr(2) [OF p] s1] obtain \<sigma>2 where
    pop: "pop_current T \<sigma>1 = Inr \<sigma>2"
    and tl: "stack_of \<sigma>2 = (stack_of \<sigma>1)(T := tl (stack_of \<sigma>1 T))"
    and s2: "same_but \<sigma> \<sigma>2 (assigned f (\<sigma>p, m))"
    by blast
  from p f pop have "makeCurrent T t pf (exec f) (\<sigma>, m) =
      Inr (case res of Inl e \<Rightarrow> Inl e | Inr r \<Rightarrow> Inr (), \<sigma>2, m1)"
    by (cases res) (simp_all add: makeCurrent_def)
  with s1 pop tl s2 show ?thesis by blast
qed

subsection \<open>Stacks that hold the cells of the active extents\<close>

lemma represents_canonical: "represents \<sigma> (depth_of \<sigma>) (cells_of \<sigma>)"
proof -
  have "xs = map (\<lambda>i. rev xs ! i) (rev [0..<length xs])" for xs :: "'b list"
  proof -
    have "rev xs = map (\<lambda>i. rev xs ! i) [0..<length (rev xs)]"
      by (simp only: map_nth)
    then have "rev (rev xs) = rev (map (\<lambda>i. rev xs ! i) [0..<length (rev xs)])"
      by (rule arg_cong)
    then show ?thesis by (simp add: rev_map)
  qed
  then show ?thesis
    by (simp add: represents_def depth_of_def cells_of_def)
qed

lemma represents_stack: "represents \<sigma> d st \<Longrightarrow> stack_of \<sigma> T = map (\<lambda>i. st (T, i)) (rev [0..<d T])"
  by (simp add: represents_def)

lemma represents_length: "represents \<sigma> d st \<Longrightarrow> length (stack_of \<sigma> T) = d T"
  by (simp add: represents_def)

lemma represents_top:
  "represents \<sigma> d st \<Longrightarrow> d T = Suc n \<Longrightarrow>
   stack_of \<sigma> T = st (T, n) # map (\<lambda>i. st (T, i)) (rev [0..<n])"
  by (simp add: represents_def)

lemma represents_same: "represents \<sigma> d st \<Longrightarrow> stack_of \<sigma>' = stack_of \<sigma> \<Longrightarrow> represents \<sigma>' d st"
  by (simp add: represents_def)

lemma represents_nth:
  assumes "represents \<sigma> d st" and "i < d T"
  shows "rev (stack_of \<sigma> T) ! i = st (T, i)"
proof -
  from assms(1) have "rev (stack_of \<sigma> T) = map (\<lambda>i. st (T, i)) [0..<d T]"
    by (simp add: represents_def rev_map)
  with assms(2) show ?thesis by simp
qed

lemma represents_push:
  assumes r: "represents \<sigma> d st"
    and p: "stack_of \<sigma>p = (stack_of \<sigma>)(T := t # stack_of \<sigma> T)"
  shows "represents \<sigma>p (d(T := Suc (d T))) (st((T, d T) := t))"
  unfolding represents_def
proof
  fix U
  show "stack_of \<sigma>p U =
      map (\<lambda>i. (st((T, d T) := t)) (U, i)) (rev [0..<(d(T := Suc (d T))) U])"
  proof (cases "U = T")
    case False
    with r p show ?thesis by (simp add: represents_def)
  next
    case True
    have "map (\<lambda>i. (st((T, d T) := t)) (T, i)) (rev [0..<d T]) =
        map (\<lambda>i. st (T, i)) (rev [0..<d T])"
      by (rule map_cong) simp_all
    with True r p show ?thesis by (simp add: represents_def)
  qed
qed

lemma represents_pop:
  assumes r: "represents \<sigma>1 (d(T := Suc (d T))) st1"
    and p: "stack_of \<sigma>2 = (stack_of \<sigma>1)(T := tl (stack_of \<sigma>1 T))"
  shows "represents \<sigma>2 d st1"
  unfolding represents_def
proof
  fix U
  from r have "stack_of \<sigma>1 U =
      map (\<lambda>i. st1 (U, i)) (rev [0..<(d(T := Suc (d T))) U])"
    by (simp add: represents_def)
  with p show "stack_of \<sigma>2 U = map (\<lambda>i. st1 (U, i)) (rev [0..<d U])"
    by (cases "U = T") simp_all
qed

lemma represents_assign:
  assumes r: "represents \<sigma> d st" and i: "i < d T"
    and a: "stack_of \<sigma>' = (stack_of \<sigma>)(T := rev ((rev (stack_of \<sigma> T))[i := v]))"
  shows "represents \<sigma>' d (st((T, i) := v))"
  unfolding represents_def
proof
  fix U
  show "stack_of \<sigma>' U = map (\<lambda>j. (st((T, i) := v)) (U, j)) (rev [0..<d U])"
  proof (cases "U = T")
    case False
    with r a show ?thesis by (simp add: represents_def)
  next
    case True
    from r have rv: "rev (stack_of \<sigma> T) = map (\<lambda>j. st (T, j)) [0..<d T]"
      by (simp add: represents_def rev_map)
    have "(map (\<lambda>j. st (T, j)) [0..<d T])[i := v] =
        map (\<lambda>j. (st((T, i) := v)) (T, j)) [0..<d T]"
      by (rule nth_equalityI) (simp_all add: nth_list_update)
    with rv have "rev ((rev (stack_of \<sigma> T))[i := v]) =
        map (\<lambda>j. (st((T, i) := v)) (T, j)) (rev [0..<d T])"
      by (simp add: rev_map)
    with True a show ?thesis by simp
  qed
qed

lemma exec_refines:
  "represents \<sigma> d st \<Longrightarrow>
   (\<exists>u. exec a (\<sigma>, m) = Inl u \<and> spec_exec a d st m = Inl u) \<or>
   (\<exists>r \<sigma>' st' m'. exec a (\<sigma>, m) = Inr (r, \<sigma>', m') \<and>
      spec_exec a d st m = Inr (r, st', m') \<and> represents \<sigma>' d st')"
proof (induction a arbitrary: \<sigma> d st m)
  case (Return r)
  then show ?case by simp
next
  case (Throw e)
  then show ?case by simp
next
  case (Get T k)
  from Get.prems have g: "represents (snd (getCurrenton T \<sigma>)) d st"
    by (rule represents_same) (rule stack_of_getCurrenton)
  show ?case
  proof (cases "d T")
    case 0
    with Get.prems have "stack_of \<sigma> T = []"
      by (simp add: represents_def)
    with 0 g show ?thesis
      by (simp add: exec_Get del: exec.simps)
  next
    case (Suc n)
    from represents_top [OF Get.prems Suc]
    have top: "stack_of \<sigma> T = st (T, n) # map (\<lambda>i. st (T, i)) (rev [0..<n])" .
    have "(\<exists>u. exec (k n (st (T, n))) (snd (getCurrenton T \<sigma>), m) = Inl u \<and>
          spec_exec (k n (st (T, n))) d st m = Inl u) \<or>
      (\<exists>r \<sigma>' st' m'. exec (k n (st (T, n))) (snd (getCurrenton T \<sigma>), m) = Inr (r, \<sigma>', m') \<and>
          spec_exec (k n (st (T, n))) d st m = Inr (r, st', m') \<and> represents \<sigma>' d st')"
      by (rule Get.IH [OF rangeI rangeI g])
    with top Suc show ?thesis
      by (simp add: exec_Get del: exec.simps)
  qed
next
  case (Assign T i v k)
  note l = represents_length [OF Assign.prems, of T]
  show ?case
  proof (cases "i < d T")
    case False
    with l show ?thesis by (simp add: assign_dangling)
  next
    case True
    with l have "i < length (stack_of \<sigma> T)" by simp
    from assign_live [OF this, of v] obtain \<sigma>1 where
      a: "assign T i v \<sigma> = Inr \<sigma>1"
      and s1: "stack_of \<sigma>1 = (stack_of \<sigma>)(T := rev ((rev (stack_of \<sigma> T))[i := v]))"
      by blast
    from represents_assign [OF Assign.prems True s1]
    have r1: "represents \<sigma>1 d (st((T, i) := v))" .
    from a have e: "exec (Assign T i v k) (\<sigma>, m) = exec k (\<sigma>1, m)" by simp
    from True have s: "spec_exec (Assign T i v k) d st m = spec_exec k d (st((T, i) := v)) m"
      by simp
    from Assign.IH [OF r1, of m] show ?thesis unfolding e s .
  qed
next
  case (Deref T i k)
  note l = represents_length [OF Deref.prems, of T]
  show ?case
  proof (cases "i < d T")
    case False
    with l show ?thesis by (simp add: deref_eq)
  next
    case True
    from represents_nth [OF Deref.prems True]
    have n: "rev (stack_of \<sigma> T) ! i = st (T, i)" .
    have "(\<exists>u. exec (k (st (T, i))) (\<sigma>, m) = Inl u \<and> spec_exec (k (st (T, i))) d st m = Inl u) \<or>
      (\<exists>r \<sigma>' st' m'. exec (k (st (T, i))) (\<sigma>, m) = Inr (r, \<sigma>', m') \<and>
          spec_exec (k (st (T, i))) d st m = Inr (r, st', m') \<and> represents \<sigma>' d st')"
      by (rule Deref.IH [OF rangeI Deref.prems])
    with True l n show ?thesis by (simp add: deref_eq)
  qed
next
  case (MakeCurrent T t pf f k)
  show ?case
  proof (cases pf)
    case (Some e)
    then have p: "push_current T pf t \<sigma> = Inl (e, snd (getCurrenton T \<sigma>))"
      by (simp add: push_current_eq)
    from MakeCurrent.prems have "represents (snd (getCurrenton T \<sigma>)) d st"
      by (rule represents_same) (rule stack_of_getCurrenton)
    with p Some show ?thesis by (simp add: makeCurrent_def)
  next
    case None
    with push_current_None [of T t \<sigma>] obtain \<sigma>p where
      p: "push_current T pf t \<sigma> = Inr \<sigma>p" by blast
    note sp = push_current_Inr(2) [OF p]
    let ?d = "d(T := Suc (d T))" and ?st = "st((T, d T) := t)"
    from represents_push [OF MakeCurrent.prems sp] have rp: "represents \<sigma>p ?d ?st" .
    have sm: "spec_exec (MakeCurrent T t pf f k) d st m =
        (case spec_exec f ?d ?st m of
           Inl u \<Rightarrow> Inl u
         | Inr (Inl e, st', m') \<Rightarrow> Inr (Inl e, st', m')
         | Inr (Inr r, st', m') \<Rightarrow> spec_exec k d st' m')"
      using None by simp
    from MakeCurrent.IH(1) [OF rp, of m] show ?thesis
    proof
      assume "\<exists>u. exec f (\<sigma>p, m) = Inl u \<and> spec_exec f ?d ?st m = Inl u"
      then obtain u where f: "exec f (\<sigma>p, m) = Inl u" and sf: "spec_exec f ?d ?st m = Inl u"
        by blast
      from p f have "exec (MakeCurrent T t pf f k) (\<sigma>, m) = Inl u"
        by (simp add: makeCurrent_def)
      moreover from sf have "spec_exec (MakeCurrent T t pf f k) d st m = Inl u"
        unfolding sm by simp
      ultimately show ?thesis by blast
    next
      assume "\<exists>r \<sigma>' st' m'. exec f (\<sigma>p, m) = Inr (r, \<sigma>', m') \<and>
        spec_exec f ?d ?st m = Inr (r, st', m') \<and> represents \<sigma>' ?d st'"
      then obtain r1 \<sigma>1 st1 m1 where f: "exec f (\<sigma>p, m) = Inr (r1, \<sigma>1, m1)"
        and sf: "spec_exec f ?d ?st m = Inr (r1, st1, m1)"
        and r1: "represents \<sigma>1 ?d st1"
        by blast
      from r1 have "stack_of \<sigma>1 T = st1 (T, d T) # map (\<lambda>i. st1 (T, i)) (rev [0..<d T])"
        by (simp add: represents_def)
      from pop_current_Cons [OF this] obtain \<sigma>2 where
        pop: "pop_current T \<sigma>1 = Inr \<sigma>2"
        and s2: "stack_of \<sigma>2 = (stack_of \<sigma>1)(T := map (\<lambda>i. st1 (T, i)) (rev [0..<d T]))"
        by blast
      have r2: "represents \<sigma>2 d st1"
        unfolding represents_def
      proof
        fix U
        from r1 have "stack_of \<sigma>1 U = map (\<lambda>i. st1 (U, i)) (rev [0..<?d U])"
          by (simp only: represents_def)
        with s2 show "stack_of \<sigma>2 U = map (\<lambda>i. st1 (U, i)) (rev [0..<d U])"
          by (cases "U = T") simp_all
      qed
      show ?thesis
      proof (cases r1)
        case (Inl e)
        with p f pop have "exec (MakeCurrent T t pf f k) (\<sigma>, m) = Inr (Inl e, \<sigma>2, m1)"
          by (simp add: makeCurrent_def)
        moreover from Inl sf have "spec_exec (MakeCurrent T t pf f k) d st m = Inr (Inl e, st1, m1)"
          unfolding sm by simp
        ultimately show ?thesis using r2 by blast
      next
        case (Inr x)
        with p f pop have e: "exec (MakeCurrent T t pf f k) (\<sigma>, m) = exec k (\<sigma>2, m1)"
          by (simp add: makeCurrent_def)
        from Inr sf have s: "spec_exec (MakeCurrent T t pf f k) d st m = spec_exec k d st1 m1"
          unfolding sm by simp
        from MakeCurrent.IH(2) [OF r2, of m1] show ?thesis unfolding e s .
      qed
    qed
  qed
next
  case (TryCatch b h k)
  from TryCatch.IH(1) [OF TryCatch.prems, of m] show ?case
  proof
    assume "\<exists>u. exec b (\<sigma>, m) = Inl u \<and> spec_exec b d st m = Inl u"
    then show ?thesis by auto
  next
    assume "\<exists>r \<sigma>' st' m'. exec b (\<sigma>, m) = Inr (r, \<sigma>', m') \<and>
      spec_exec b d st m = Inr (r, st', m') \<and> represents \<sigma>' d st'"
    then obtain r1 \<sigma>1 st1 m1 where b: "exec b (\<sigma>, m) = Inr (r1, \<sigma>1, m1)"
      and sb: "spec_exec b d st m = Inr (r1, st1, m1)"
      and r1: "represents \<sigma>1 d st1"
      by blast
    show ?thesis
    proof (cases r1)
      case (Inr x)
      from TryCatch.IH(3) [OF r1, of m1] b sb Inr show ?thesis by simp
    next
      case (Inl e)
      note E = this
      have "(\<exists>u. exec (h e) (\<sigma>1, m1) = Inl u \<and> spec_exec (h e) d st1 m1 = Inl u) \<or>
        (\<exists>r \<sigma>' st' m'. exec (h e) (\<sigma>1, m1) = Inr (r, \<sigma>', m') \<and>
          spec_exec (h e) d st1 m1 = Inr (r, st', m') \<and> represents \<sigma>' d st')"
        by (rule TryCatch.IH(2) [OF rangeI r1])
      then show ?thesis
      proof
        assume "\<exists>u. exec (h e) (\<sigma>1, m1) = Inl u \<and> spec_exec (h e) d st1 m1 = Inl u"
        with E b sb show ?thesis by auto
      next
        assume "\<exists>r \<sigma>' st' m'. exec (h e) (\<sigma>1, m1) = Inr (r, \<sigma>', m') \<and>
          spec_exec (h e) d st1 m1 = Inr (r, st', m') \<and> represents \<sigma>' d st'"
        then obtain r2 \<sigma>2 st2 m2 where h: "exec (h e) (\<sigma>1, m1) = Inr (r2, \<sigma>2, m2)"
          and sh: "spec_exec (h e) d st1 m1 = Inr (r2, st2, m2)"
          and r2: "represents \<sigma>2 d st2"
          by blast
        show ?thesis
        proof (cases r2)
          case (Inl e')
          with E b sb h sh r2 show ?thesis by simp
        next
          case (Inr x)
          from TryCatch.IH(3) [OF r2, of m2] E b sb h sh Inr show ?thesis by simp
        qed
      qed
    qed
  qed
next
  case (Local g k)
  from Local.IH [OF Local.prems, of "g m"] show ?case by simp
next
  case (Inspect q)
  have "(\<exists>u. exec (q m) (\<sigma>, m) = Inl u \<and> spec_exec (q m) d st m = Inl u) \<or>
    (\<exists>r \<sigma>' st' m'. exec (q m) (\<sigma>, m) = Inr (r, \<sigma>', m') \<and>
      spec_exec (q m) d st m = Inr (r, st', m') \<and> represents \<sigma>' d st')"
    by (rule Inspect.IH [OF rangeI Inspect.prems])
  then show ?case by simp
qed

subsection \<open>The demonstration, run\<close>

lemma scenario_run:
  "exec scenario (Map.empty, []) =
     Inr (Inl (runtime_error ''No current object''), [''Integer'' \<mapsto> \<lparr>stack = []\<rparr>], [10, 11])"
  by (simp add: scenario_def outer_call_def inner_fails_def evals)

lemma outer_call_run:
  "exec outer_call ([''Integer'' \<mapsto> \<lparr>stack = [10]\<rparr>], []) =
     Inr (Inl (thrown ''Oh no.''), [''Integer'' \<mapsto> \<lparr>stack = [10]\<rparr>], [10, 11])"
  by (simp add: outer_call_def inner_fails_def evals)

lemma push_10:
  "push_current ''Integer'' None (10::int) Map.empty = Inr [''Integer'' \<mapsto> \<lparr>stack = [10]\<rparr>]"
  by (simp add: evals)

subsection \<open>\<^verbatim>\<open>get\<close> returns the current object\<close>

text \<open>
  Claim C1. For every sequence of nested \<^verbatim>\<open>makeCurrent\<close> calls of one thread, \<^verbatim>\<open>get\<close>
  returns at every point the value pushed last and not popped yet. Whatever an action
  does (nest calls, run them one after another, throw, catch, assign through references,
  meet a push that throws), running it on the stacks gives what dynamic scoping gives,
  where \<^verbatim>\<open>get\<close> gives the cell of the innermost active call: the same outcome and the
  same memory when the run completes, and the same undefined behaviour when it does not.
  The memory can hold every value read, so every single \<^verbatim>\<open>get\<close> agrees. Afterwards
  the stacks hold the cells of the calls that were active at the start.
\<close>

theorem get_returns_innermost_current:
  "(\<exists>u. exec a (\<sigma>, m) = Inl u \<and> spec_exec a (depth_of \<sigma>) (cells_of \<sigma>) m = Inl u) \<or>
   (\<exists>r \<sigma>' st' m'. exec a (\<sigma>, m) = Inr (r, \<sigma>', m') \<and>
      spec_exec a (depth_of \<sigma>) (cells_of \<sigma>) m = Inr (r, st', m') \<and>
      represents \<sigma>' (depth_of \<sigma>) st')"
  by (rule exec_refines) (rule represents_canonical)

theorem get_returns_innermost_current_witness:
  "\<exists>\<sigma>'. exec scenario (Map.empty, []) =
          Inr (Inl (runtime_error ''No current object''), \<sigma>', [10, 11]) \<and>
        stack_of \<sigma>' ''Integer'' = []"
proof -
  have "\<exists>st'. spec_exec scenario (depth_of (Map.empty :: (string, int) tls)) (cells_of Map.empty) [] =
      Inr (Inl (runtime_error ''No current object''), st', [10, 11])"
    by (simp add: scenario_def outer_call_def inner_fails_def depth_of_def stack_of_def)
  then obtain st0 where s: "spec_exec scenario (depth_of (Map.empty :: (string, int) tls)) (cells_of Map.empty) [] =
      Inr (Inl (runtime_error ''No current object''), st0, [10, 11])"
    by blast
  from get_returns_innermost_current [of scenario Map.empty "[]"] show ?thesis
  proof (elim disjE exE conjE)
    fix u
    assume "spec_exec scenario (depth_of (Map.empty :: (string, int) tls)) (cells_of Map.empty) [] = Inl u"
    with s show ?thesis by simp
  next
    fix r \<sigma>' st' m'
    assume e: "exec scenario (Map.empty, []) = Inr (r, \<sigma>', m')"
      and sp: "spec_exec scenario (depth_of (Map.empty :: (string, int) tls)) (cells_of Map.empty) [] = Inr (r, st', m')"
      and rp: "represents \<sigma>' (depth_of (Map.empty :: (string, int) tls)) st'"
    from sp s have "r = Inl (runtime_error ''No current object'')" and "m' = [10, 11]"
      by simp_all
    moreover from represents_length [OF rp, of "''Integer''"] have "stack_of \<sigma>' ''Integer'' = []"
      by (simp add: depth_of_def stack_of_def)
    ultimately show ?thesis using e by blast
  qed
qed

subsection \<open>Exceptions of the callback\<close>

text \<open>
  Claim C2. When the callback throws, \<^verbatim>\<open>makeCurrent\<close> pops what it pushed and throws
  the same exception on. The callback ran on the stack with the value pushed on top; at
  the pop the stacks have the sizes they had then, so that the top is the element this
  call pushed; the pop succeeds and takes that element off; the stacks are then those
  from before the call, up to the elements the callback assigned, and exactly those when
  it assigned none; the outcome is that exception; and a handler around the call runs
  on the popped stacks with that exception.
\<close>

theorem makeCurrent_pops_before_rethrow:
  assumes "push_current T pf t \<sigma> = Inr \<sigma>p"
    and "exec f (\<sigma>p, m) = Inr (Inl e, \<sigma>1, m1)"
  shows "\<exists>\<sigma>2. stack_of \<sigma>p = (stack_of \<sigma>)(T := t # stack_of \<sigma> T) \<and>
           same_but \<sigma>p \<sigma>1 (assigned f (\<sigma>p, m)) \<and>
           pop_current T \<sigma>1 = Inr \<sigma>2 \<and>
           stack_of \<sigma>2 = (stack_of \<sigma>1)(T := tl (stack_of \<sigma>1 T)) \<and>
           same_but \<sigma> \<sigma>2 (assigned f (\<sigma>p, m)) \<and>
           (assigned f (\<sigma>p, m) = {} \<longrightarrow>
              stack_of \<sigma>1 = stack_of \<sigma>p \<and> stack_of \<sigma>2 = stack_of \<sigma>) \<and>
           makeCurrent T t pf (exec f) (\<sigma>, m) = Inr (Inl e, \<sigma>2, m1) \<and>
           (\<forall>c h k. exec (TryCatch (MakeCurrent T t pf f c) h k) (\<sigma>, m) =
                    exec (TryCatch (Throw e) h k) (\<sigma>2, m1))"
proof -
  from makeCurrent_run [OF assms] obtain \<sigma>2 where
    s1: "same_but \<sigma>p \<sigma>1 (assigned f (\<sigma>p, m))"
    and pop: "pop_current T \<sigma>1 = Inr \<sigma>2"
    and tl: "stack_of \<sigma>2 = (stack_of \<sigma>1)(T := tl (stack_of \<sigma>1 T))"
    and s2: "same_but \<sigma> \<sigma>2 (assigned f (\<sigma>p, m))"
    and mc: "makeCurrent T t pf (exec f) (\<sigma>, m) = Inr (Inl e, \<sigma>2, m1)"
    by auto
  from mc have "exec (TryCatch (MakeCurrent T t pf f c) h k) (\<sigma>, m) =
      exec (TryCatch (Throw e) h k) (\<sigma>2, m1)" for c h k
    by simp
  moreover from s1 s2
  have "assigned f (\<sigma>p, m) = {} \<longrightarrow> stack_of \<sigma>1 = stack_of \<sigma>p \<and> stack_of \<sigma>2 = stack_of \<sigma>"
    by (auto dest: same_but_nothing)
  ultimately show ?thesis
    using push_current_Inr(2) [OF assms(1)] s1 pop tl s2 mc by blast
qed

theorem makeCurrent_pops_before_rethrow_witness:
  "push_current ''Integer'' (None :: string exn option) (10::int) Map.empty =
     Inr [''Integer'' \<mapsto> \<lparr>stack = [10]\<rparr>] \<and>
   exec outer_call ([''Integer'' \<mapsto> \<lparr>stack = [10]\<rparr>], []) =
     Inr (Inl (thrown ''Oh no.''), [''Integer'' \<mapsto> \<lparr>stack = [10]\<rparr>], [10, 11]) \<and>
   makeCurrent ''Integer'' 10 None (exec outer_call) (Map.empty, []) =
     Inr (Inl (thrown ''Oh no.''), [''Integer'' \<mapsto> \<lparr>stack = []\<rparr>], [10, 11])"
proof -
  have p: "push_current ''Integer'' (None :: string exn option) (10::int) Map.empty =
      Inr [''Integer'' \<mapsto> \<lparr>stack = [10]\<rparr>]"
    by (rule push_10)
  have pop: "pop_current ''Integer'' [''Integer'' \<mapsto> \<lparr>stack = [10::int]\<rparr>] =
      Inr [''Integer'' \<mapsto> \<lparr>stack = []\<rparr>]"
    by (simp add: evals)
  from makeCurrent_pops_before_rethrow [OF p outer_call_run] pop p outer_call_run
  show ?thesis by auto
qed

subsection \<open>The stacks after \<^verbatim>\<open>makeCurrent\<close>\<close>

text \<open>
  Claim C3, as stated: after \<^verbatim>\<open>makeCurrent\<close> the stack has the contents it had
  before, for every action. It has not for the callback that assigns 99 through a
  reference to the bottom element: the stack held 9 before the call and holds 99 after
  it.
\<close>

theorem makeCurrent_same_contents_counterexample:
  "makeCurrent ''Integer'' 10 None (exec assign_below) ([''Integer'' \<mapsto> \<lparr>stack = [9]\<rparr>], []) =
     Inr (Inr (), [''Integer'' \<mapsto> \<lparr>stack = [99]\<rparr>], []) \<and>
   stack_of [''Integer'' \<mapsto> \<lparr>stack = [99::int]\<rparr>] ''Integer'' \<noteq>
     stack_of [''Integer'' \<mapsto> \<lparr>stack = [9]\<rparr>] ''Integer''"
  by (simp add: assign_below_def evals stack_of_def)

text \<open>
  Claim C3, amended. For every value and every action, after \<^verbatim>\<open>makeCurrent\<close> has
  completed, by a return or by an exception (that of the callback or that of the push),
  every stack of the thread has the size it had before the call, and every element has
  the value it had before the call, except the elements that the action assigned through
  a reference to them. So the contents are the same whenever the action assigned to no
  element that was on a stack before the call.
\<close>

theorem makeCurrent_restores_stack:
  assumes "makeCurrent T t pf (exec f) (\<sigma>, m) = Inr (r, \<sigma>', m')"
  shows "same_but \<sigma> \<sigma>'
           (case push_current T pf t \<sigma> of Inl x \<Rightarrow> {} | Inr \<sigma>p \<Rightarrow> assigned f (\<sigma>p, m)) \<and>
         ((\<forall>U i. (U, i) \<in>
             (case push_current T pf t \<sigma> of Inl x \<Rightarrow> {} | Inr \<sigma>p \<Rightarrow> assigned f (\<sigma>p, m)) \<longrightarrow>
             length (stack_of \<sigma> U) \<le> i) \<longrightarrow>
          stack_of \<sigma>' = stack_of \<sigma>)"
proof -
  let ?W = "case push_current T pf t \<sigma> of Inl x \<Rightarrow> {} | Inr \<sigma>p \<Rightarrow> assigned f (\<sigma>p, m)"
  have sb: "same_but \<sigma> \<sigma>' ?W"
  proof (cases "push_current T pf t \<sigma>")
    case (Inl x)
    obtain e \<sigma>0 where x: "x = (e, \<sigma>0)" by (cases x)
    with Inl have p: "push_current T pf t \<sigma> = Inl (e, \<sigma>0)" by simp
    with assms have "\<sigma>' = \<sigma>0" by (simp add: makeCurrent_def)
    with push_current_Inl(2) [OF p] have "stack_of \<sigma>' = stack_of \<sigma>"
      by (simp add: stack_of_getCurrenton)
    then have "same_but \<sigma> \<sigma>' {}" by (rule same_but_refl)
    with p show ?thesis by simp
  next
    case (Inr \<sigma>p)
    show ?thesis
    proof (cases "exec f (\<sigma>p, m)")
      case (Inl u)
      with Inr assms show ?thesis by (simp add: makeCurrent_def)
    next
      case f: (Inr y)
      obtain res \<sigma>1 m1 where "y = (res, \<sigma>1, m1)" by (cases y)
      with f have "exec f (\<sigma>p, m) = Inr (res, \<sigma>1, m1)" by simp
      from makeCurrent_run [OF Inr this] assms have "same_but \<sigma> \<sigma>' (assigned f (\<sigma>p, m))"
        by auto
      with Inr show ?thesis by simp
    qed
  qed
  moreover have "stack_of \<sigma>' = stack_of \<sigma>"
    if "\<forall>U i. (U, i) \<in> ?W \<longrightarrow> length (stack_of \<sigma> U) \<le> i"
    using sb that by (intro same_but_unassigned [of \<sigma> \<sigma>' ?W]) auto
  ultimately show ?thesis by blast
qed

theorem makeCurrent_restores_stack_witness:
  "makeCurrent ''Integer'' 10 None (exec assign_below) ([''Integer'' \<mapsto> \<lparr>stack = [9]\<rparr>], []) =
     Inr (Inr (), [''Integer'' \<mapsto> \<lparr>stack = [99]\<rparr>], []) \<and>
   same_but [''Integer'' \<mapsto> \<lparr>stack = [9::int]\<rparr>] [''Integer'' \<mapsto> \<lparr>stack = [99]\<rparr>]
     {(''Integer'', 0)} \<and>
   makeCurrent ''Integer'' 10 None (exec outer_call) ([''Integer'' \<mapsto> \<lparr>stack = [9]\<rparr>], []) =
     Inr (Inl (thrown ''Oh no.''), [''Integer'' \<mapsto> \<lparr>stack = [9]\<rparr>], [10, 11]) \<and>
   same_but [''Integer'' \<mapsto> \<lparr>stack = [9::int]\<rparr>] [''Integer'' \<mapsto> \<lparr>stack = [9]\<rparr>] {}"
proof -
  have h1: "makeCurrent ''Integer'' 10 None (exec outer_call)
      ([''Integer'' \<mapsto> \<lparr>stack = [9]\<rparr>], []) =
      Inr (Inl (thrown ''Oh no.''), [''Integer'' \<mapsto> \<lparr>stack = [9]\<rparr>], [10, 11])"
    by (simp add: outer_call_def inner_fails_def evals)
  have w1: "(case push_current ''Integer'' (None :: string exn option) 10
        [''Integer'' \<mapsto> \<lparr>stack = [9]\<rparr>] of
      Inl x \<Rightarrow> {} | Inr \<sigma>p \<Rightarrow> assigned outer_call (\<sigma>p, [])) = {}"
    by (simp add: outer_call_def inner_fails_def evals)
  from makeCurrent_restores_stack [OF h1, THEN conjunct1]
  have s1: "same_but [''Integer'' \<mapsto> \<lparr>stack = [9::int]\<rparr>] [''Integer'' \<mapsto> \<lparr>stack = [9]\<rparr>] {}"
    unfolding w1 .
  have h2: "makeCurrent ''Integer'' 10 None (exec assign_below)
      ([''Integer'' \<mapsto> \<lparr>stack = [9]\<rparr>], []) =
      Inr (Inr (), [''Integer'' \<mapsto> \<lparr>stack = [99]\<rparr>], [])"
    by (simp add: assign_below_def evals)
  have w2: "(case push_current ''Integer'' (None :: string exn option) 10
        [''Integer'' \<mapsto> \<lparr>stack = [9]\<rparr>] of
      Inl x \<Rightarrow> {} | Inr \<sigma>p \<Rightarrow> assigned assign_below (\<sigma>p, [])) = {(''Integer'', 0)}"
    by (simp add: assign_below_def evals)
  from makeCurrent_restores_stack [OF h2, THEN conjunct1]
  have s2: "same_but [''Integer'' \<mapsto> \<lparr>stack = [9::int]\<rparr>] [''Integer'' \<mapsto> \<lparr>stack = [99]\<rparr>]
      {(''Integer'', 0)}"
    unfolding w2 .
  from h1 s1 h2 s2 show ?thesis by simp
qed

subsection \<open>\<^verbatim>\<open>get\<close> without a current object\<close>

text \<open>
  Claim C4. When the stack of the thread is empty, also when the thread has never used
  the instantiation, \<^verbatim>\<open>get\<close> throws the runtime error \<^verbatim>\<open>No current object\<close>: it
  neither returns an element nor runs into undefined behaviour, and a handler around the
  call receives the exception.
\<close>

theorem get_without_current_throws:
  assumes "stack_of \<sigma> T = []"
  shows "get T \<sigma> = Inr (Inl (runtime_error ''No current object''), snd (getCurrenton T \<sigma>)) \<and>
         exec (TryCatch (Get T k) h c) (\<sigma>, m) =
           exec (TryCatch (Throw (runtime_error ''No current object'')) h c)
             (snd (getCurrenton T \<sigma>), m)"
  using assms by (simp add: get_eq)

theorem get_without_current_throws_witness:
  "stack_of (Map.empty :: (string, int) tls) ''Integer'' = [] \<and>
   get ''Integer'' (Map.empty :: (string, int) tls) =
     Inr (Inl (runtime_error ''No current object'') :: string exn + nat \<times> int,
          [''Integer'' \<mapsto> \<lparr>stack = []\<rparr>])"
proof -
  have h: "stack_of (Map.empty :: (string, int) tls) ''Integer'' = []"
    by (simp add: stack_of_def)
  have "get ''Integer'' (Map.empty :: (string, int) tls) =
      Inr (Inl (runtime_error ''No current object'') :: string exn + nat \<times> int,
           snd (getCurrenton ''Integer'' Map.empty))"
    by (rule get_without_current_throws [OF h, THEN conjunct1])
  with h show ?thesis
    by (simp add: getCurrenton_def)
qed

subsection \<open>No pop of an empty stack\<close>

text \<open>
  Claim C5. Every pop of \<^verbatim>\<open>makeCurrent\<close> finds a stack that is not empty. No run of
  an action ends in the undefined behaviour of a pop (or a \<^verbatim>\<open>top\<close>) of an empty stack,
  at any depth of nesting: a run completes or has used a dangling reference. And when
  the callback of \<^verbatim>\<open>makeCurrent\<close> ends, by a return or by an exception, the stack is one
  element longer than before the call, the pop succeeds and takes the top element off,
  and the stacks are then those from before the call, up to the elements the callback
  assigned; when it assigned none, the top at the pop is the value pushed and the stacks
  are afterwards exactly those from before the call.
\<close>

theorem makeCurrent_pops_nonempty:
  fixes f :: "('k, 'v, 'u, 'x, 'r) action"
  shows "((\<exists>r s'. exec a s = Inr (r, s')) \<or> exec a s = Inl dangling_reference) \<and>
   (\<exists>\<sigma>p. push_current T (None :: 'x exn option) t \<sigma> = Inr \<sigma>p \<and>
      stack_of \<sigma>p = (stack_of \<sigma>)(T := t # stack_of \<sigma> T) \<and>
      (exec f (\<sigma>p, m) = Inl dangling_reference \<or>
       (\<exists>r \<sigma>1 m1 \<sigma>2. exec f (\<sigma>p, m) = Inr (r, \<sigma>1, m1) \<and>
          same_but \<sigma>p \<sigma>1 (assigned f (\<sigma>p, m)) \<and>
          length (stack_of \<sigma>1 T) = Suc (length (stack_of \<sigma> T)) \<and>
          pop_current T \<sigma>1 = Inr \<sigma>2 \<and>
          stack_of \<sigma>2 = (stack_of \<sigma>1)(T := tl (stack_of \<sigma>1 T)) \<and>
          same_but \<sigma> \<sigma>2 (assigned f (\<sigma>p, m)) \<and>
          (assigned f (\<sigma>p, m) = {} \<longrightarrow>
             stack_of \<sigma>1 = stack_of \<sigma>p \<and> stack_of \<sigma>2 = stack_of \<sigma>))))"
proof
  from exec_frame [of a "fst s" "snd s"]
  show "(\<exists>r s'. exec a s = Inr (r, s')) \<or> exec a s = Inl dangling_reference"
    by auto
next
  from push_current_None [of T t \<sigma>] obtain \<sigma>p where
    p: "push_current T (None :: 'x exn option) t \<sigma> = Inr \<sigma>p" by blast
  note sp = push_current_Inr(2) [OF p]
  have "exec f (\<sigma>p, m) = Inl dangling_reference \<or>
    (\<exists>r \<sigma>1 m1 \<sigma>2. exec f (\<sigma>p, m) = Inr (r, \<sigma>1, m1) \<and>
       same_but \<sigma>p \<sigma>1 (assigned f (\<sigma>p, m)) \<and>
       length (stack_of \<sigma>1 T) = Suc (length (stack_of \<sigma> T)) \<and>
       pop_current T \<sigma>1 = Inr \<sigma>2 \<and>
       stack_of \<sigma>2 = (stack_of \<sigma>1)(T := tl (stack_of \<sigma>1 T)) \<and>
       same_but \<sigma> \<sigma>2 (assigned f (\<sigma>p, m)) \<and>
       (assigned f (\<sigma>p, m) = {} \<longrightarrow>
          stack_of \<sigma>1 = stack_of \<sigma>p \<and> stack_of \<sigma>2 = stack_of \<sigma>))"
  proof (cases "exec f (\<sigma>p, m)")
    case (Inl u)
    with exec_frame [of f \<sigma>p m] show ?thesis by auto
  next
    case (Inr y)
    obtain r \<sigma>1 m1 where "y = (r, \<sigma>1, m1)" by (cases y)
    with Inr have f: "exec f (\<sigma>p, m) = Inr (r, \<sigma>1, m1)" by simp
    from makeCurrent_run [OF p f] obtain \<sigma>2 where
      s1: "same_but \<sigma>p \<sigma>1 (assigned f (\<sigma>p, m))"
      and pop: "pop_current T \<sigma>1 = Inr \<sigma>2"
      and tl: "stack_of \<sigma>2 = (stack_of \<sigma>1)(T := tl (stack_of \<sigma>1 T))"
      and s2: "same_but \<sigma> \<sigma>2 (assigned f (\<sigma>p, m))"
      by blast
    from s1 sp have "length (stack_of \<sigma>1 T) = Suc (length (stack_of \<sigma> T))"
      by (simp add: same_but_def)
    moreover from s1 s2
    have "assigned f (\<sigma>p, m) = {} \<longrightarrow> stack_of \<sigma>1 = stack_of \<sigma>p \<and> stack_of \<sigma>2 = stack_of \<sigma>"
      by (auto dest: same_but_nothing)
    ultimately show ?thesis using f s1 pop tl s2 by blast
  qed
  with p sp show "\<exists>\<sigma>p. push_current T (None :: 'x exn option) t \<sigma> = Inr \<sigma>p \<and>
      stack_of \<sigma>p = (stack_of \<sigma>)(T := t # stack_of \<sigma> T) \<and>
      (exec f (\<sigma>p, m) = Inl dangling_reference \<or>
       (\<exists>r \<sigma>1 m1 \<sigma>2. exec f (\<sigma>p, m) = Inr (r, \<sigma>1, m1) \<and>
          same_but \<sigma>p \<sigma>1 (assigned f (\<sigma>p, m)) \<and>
          length (stack_of \<sigma>1 T) = Suc (length (stack_of \<sigma> T)) \<and>
          pop_current T \<sigma>1 = Inr \<sigma>2 \<and>
          stack_of \<sigma>2 = (stack_of \<sigma>1)(T := tl (stack_of \<sigma>1 T)) \<and>
          same_but \<sigma> \<sigma>2 (assigned f (\<sigma>p, m)) \<and>
          (assigned f (\<sigma>p, m) = {} \<longrightarrow>
             stack_of \<sigma>1 = stack_of \<sigma>p \<and> stack_of \<sigma>2 = stack_of \<sigma>)))"
    by blast
qed

theorem makeCurrent_pops_nonempty_witness:
  "\<exists>r \<sigma>1 m1 \<sigma>2.
     exec outer_call ([''Integer'' \<mapsto> \<lparr>stack = [10]\<rparr>], []) = Inr (r, \<sigma>1, m1) \<and>
     length (stack_of \<sigma>1 ''Integer'') = 1 \<and>
     pop_current ''Integer'' \<sigma>1 = Inr \<sigma>2 \<and>
     length (stack_of \<sigma>2 ''Integer'') = 0"
proof -
  from makeCurrent_pops_nonempty [of scenario "(Map.empty, [])" "''Integer''" 10 Map.empty
      outer_call "[]"]
  obtain \<sigma>p where p: "push_current ''Integer'' (None :: string exn option) 10 Map.empty = Inr \<sigma>p"
    and d: "exec outer_call (\<sigma>p, []) = Inl dangling_reference \<or>
      (\<exists>r \<sigma>1 m1 \<sigma>2. exec outer_call (\<sigma>p, []) = Inr (r, \<sigma>1, m1) \<and>
         same_but \<sigma>p \<sigma>1 (assigned outer_call (\<sigma>p, [])) \<and>
         length (stack_of \<sigma>1 ''Integer'') =
           Suc (length (stack_of (Map.empty :: (string, int) tls) ''Integer'')) \<and>
         pop_current ''Integer'' \<sigma>1 = Inr \<sigma>2 \<and>
         stack_of \<sigma>2 = (stack_of \<sigma>1)(''Integer'' := tl (stack_of \<sigma>1 ''Integer'')) \<and>
         same_but Map.empty \<sigma>2 (assigned outer_call (\<sigma>p, [])) \<and>
         (assigned outer_call (\<sigma>p, []) = {} \<longrightarrow>
            stack_of \<sigma>1 = stack_of \<sigma>p \<and> stack_of \<sigma>2 = stack_of Map.empty))"
    by blast
  have "push_current ''Integer'' (None :: string exn option) (10::int) Map.empty =
      Inr [''Integer'' \<mapsto> \<lparr>stack = [10]\<rparr>]"
    by (rule push_10)
  with p have sp: "\<sigma>p = [''Integer'' \<mapsto> \<lparr>stack = [10]\<rparr>]" by simp
  from d outer_call_run obtain r \<sigma>1 m1 \<sigma>2 where
    e: "exec outer_call ([''Integer'' \<mapsto> \<lparr>stack = [10]\<rparr>], []) = Inr (r, \<sigma>1, m1)"
    and l: "length (stack_of \<sigma>1 ''Integer'') =
      Suc (length (stack_of (Map.empty :: (string, int) tls) ''Integer''))"
    and pop: "pop_current ''Integer'' \<sigma>1 = Inr \<sigma>2"
    and tl: "stack_of \<sigma>2 = (stack_of \<sigma>1)(''Integer'' := tl (stack_of \<sigma>1 ''Integer''))"
    unfolding sp by auto
  from l have l1: "length (stack_of \<sigma>1 ''Integer'') = 1" by (simp add: stack_of_def)
  from tl l1 have "length (stack_of \<sigma>2 ''Integer'') = 0" by simp
  with e l1 pop show ?thesis by blast
qed

subsection \<open>What \<^verbatim>\<open>makeCurrent\<close> returns\<close>

text \<open>
  Claim C6, as stated: \<^verbatim>\<open>makeCurrent\<close> returns whatever the callback returns. It does
  not: the callback below returns 5, and \<^verbatim>\<open>makeCurrent\<close>, which is \<^verbatim>\<open>void\<close>,
  returns nothing.
\<close>

theorem makeCurrent_returns_action_result_counterexample:
  "exec (Return (5::int) :: (string, int, unit, unit, int) action)
      ([''Integer'' \<mapsto> \<lparr>stack = [10]\<rparr>], ()) =
     Inr (Inr 5, [''Integer'' \<mapsto> \<lparr>stack = [10]\<rparr>], ()) \<and>
   makeCurrent ''Integer'' 10 None
      (exec (Return (5::int) :: (string, int, unit, unit, int) action)) (Map.empty, ()) =
     Inr (Inr (), [''Integer'' \<mapsto> \<lparr>stack = []\<rparr>], ())"
  by (simp add: evals)

text \<open>
  Claim C6, amended. When the callback returns, \<^verbatim>\<open>makeCurrent\<close> returns without a
  value, whatever the callback returned; when the callback throws, \<^verbatim>\<open>makeCurrent\<close>
  throws the same exception. On both paths it leaves after the pop: the storage it leaves
  is the one that the pop gives from the storage the callback left, with the top element
  of the stack, which is one element longer than before the call, taken off. The memory
  is as the callback left it.
\<close>

theorem makeCurrent_outcome:
  assumes "push_current T pf t \<sigma> = Inr \<sigma>p"
    and "exec f (\<sigma>p, m) = Inr (res, \<sigma>1, m1)"
  shows "\<exists>\<sigma>2. pop_current T \<sigma>1 = Inr \<sigma>2 \<and>
           stack_of \<sigma>2 = (stack_of \<sigma>1)(T := tl (stack_of \<sigma>1 T)) \<and>
           length (stack_of \<sigma>1 T) = Suc (length (stack_of \<sigma> T)) \<and>
           makeCurrent T t pf (exec f) (\<sigma>, m) =
             Inr (case res of Inl e \<Rightarrow> Inl e | Inr r \<Rightarrow> Inr (), \<sigma>2, m1)"
proof -
  from makeCurrent_run [OF assms] obtain \<sigma>2 where
    s1: "same_but \<sigma>p \<sigma>1 (assigned f (\<sigma>p, m))"
    and pop: "pop_current T \<sigma>1 = Inr \<sigma>2"
    and tl: "stack_of \<sigma>2 = (stack_of \<sigma>1)(T := tl (stack_of \<sigma>1 T))"
    and mc: "makeCurrent T t pf (exec f) (\<sigma>, m) =
      Inr (case res of Inl e \<Rightarrow> Inl e | Inr r \<Rightarrow> Inr (), \<sigma>2, m1)"
    by blast
  from s1 push_current_Inr(2) [OF assms(1)]
  have "length (stack_of \<sigma>1 T) = Suc (length (stack_of \<sigma> T))"
    by (simp add: same_but_def)
  with pop tl mc show ?thesis by blast
qed

theorem makeCurrent_outcome_witness:
  "makeCurrent ''Integer'' 10 None
      (exec (Return (5::int) :: (string, int, unit, string, int) action)) (Map.empty, ()) =
     Inr (Inr (), [''Integer'' \<mapsto> \<lparr>stack = []\<rparr>], ()) \<and>
   makeCurrent ''Integer'' 10 None
      (exec (Throw (thrown ''Oh no.'') :: (string, int, unit, string, int) action))
      (Map.empty, ()) =
     Inr (Inl (thrown ''Oh no.''), [''Integer'' \<mapsto> \<lparr>stack = []\<rparr>], ())"
proof -
  have p: "push_current ''Integer'' (None :: string exn option) (10::int) Map.empty =
      Inr [''Integer'' \<mapsto> \<lparr>stack = [10]\<rparr>]"
    by (rule push_10)
  have pop: "pop_current ''Integer'' [''Integer'' \<mapsto> \<lparr>stack = [10::int]\<rparr>] =
      Inr [''Integer'' \<mapsto> \<lparr>stack = []\<rparr>]"
    by (simp add: evals)
  have r: "exec (Return (5::int) :: (string, int, unit, string, int) action)
      ([''Integer'' \<mapsto> \<lparr>stack = [10]\<rparr>], ()) =
      Inr (Inr 5, [''Integer'' \<mapsto> \<lparr>stack = [10]\<rparr>], ())"
    by simp
  have t: "exec (Throw (thrown ''Oh no.'') :: (string, int, unit, string, int) action)
      ([''Integer'' \<mapsto> \<lparr>stack = [10]\<rparr>], ()) =
      Inr (Inl (thrown ''Oh no.''), [''Integer'' \<mapsto> \<lparr>stack = [10]\<rparr>], ())"
    by simp
  from makeCurrent_outcome [OF p r] makeCurrent_outcome [OF p t] pop show ?thesis
    by auto
qed

subsection \<open>Instantiations do not meet\<close>

lemma stack_of_other: "T \<noteq> U \<Longrightarrow> stack_of (\<sigma>(U := x)) T = stack_of \<sigma> T"
  by (simp add: stack_of_def)

lemma getCurrenton_other:
  "T \<noteq> U \<Longrightarrow>
   getCurrenton T (\<sigma>(U := x)) = (fst (getCurrenton T \<sigma>), (snd (getCurrenton T \<sigma>))(U := x))"
  by (cases "\<sigma> T") (simp_all add: getCurrenton_def fun_upd_twist)

lemma getCurrenton_frame: "T \<noteq> U \<Longrightarrow> snd (getCurrenton T \<sigma>) U = \<sigma> U"
  by (cases "\<sigma> T") (simp_all add: getCurrenton_def)

lemma push_current_other:
  "T \<noteq> U \<Longrightarrow>
   push_current T pf t (\<sigma>(U := x)) =
     (case push_current T pf t \<sigma> of
        Inl (e, \<sigma>0) \<Rightarrow> Inl (e, \<sigma>0(U := x))
      | Inr \<sigma>p \<Rightarrow> Inr (\<sigma>p(U := x)))"
  by (cases pf) (simp_all add: push_current_eq getCurrenton_other stack_of_other fun_upd_twist)

lemma push_current_frame:
  "T \<noteq> U \<Longrightarrow> push_current T pf t \<sigma> = Inr \<sigma>p \<Longrightarrow> \<sigma>p U = \<sigma> U"
  by (cases pf) (auto simp: push_current_eq getCurrenton_frame)

lemma pop_current_other:
  "T \<noteq> U \<Longrightarrow>
   pop_current T (\<sigma>(U := x)) =
     (case pop_current T \<sigma> of Inl u \<Rightarrow> Inl u | Inr \<sigma>' \<Rightarrow> Inr (\<sigma>'(U := x)))"
  by (cases "stack_pop (stack (fst (getCurrenton T \<sigma>)))")
    (simp_all add: pop_current_def getCurrenton_other split_beta fun_upd_twist)

lemma pop_current_frame: "T \<noteq> U \<Longrightarrow> pop_current T \<sigma> = Inr \<sigma>' \<Longrightarrow> \<sigma>' U = \<sigma> U"
  by (cases "stack_pop (stack (fst (getCurrenton T \<sigma>)))")
    (auto simp: pop_current_def split_beta getCurrenton_frame)

lemma assign_other:
  "T \<noteq> U \<Longrightarrow>
   assign T i v (\<sigma>(U := x)) =
     (case assign T i v \<sigma> of Inl u \<Rightarrow> Inl u | Inr \<sigma>' \<Rightarrow> Inr (\<sigma>'(U := x)))"
  by (cases "\<sigma> T"; cases "i < length (stack (the (\<sigma> T)))")
    (simp_all add: assign_def stack_assign_def fun_upd_twist)

lemma assign_frame: "T \<noteq> U \<Longrightarrow> assign T i v \<sigma> = Inr \<sigma>' \<Longrightarrow> \<sigma>' U = \<sigma> U"
  by (cases "\<sigma> T"; cases "i < length (stack (the (\<sigma> T)))")
    (auto simp: assign_def stack_assign_def)

lemma deref_other: "T \<noteq> U \<Longrightarrow> deref T i (\<sigma>(U := x)) = deref T i \<sigma>"
  by (simp add: deref_def)

text \<open>
  Claim C7. The objects of two instantiations are independent, also on one thread. Code
  that works on other instantiations than \<^verbatim>\<open>Currenton<U>\<close>, through \<^verbatim>\<open>get\<close>,
  \<^verbatim>\<open>makeCurrent\<close> and references to their elements, leaves the object of
  \<^verbatim>\<open>Currenton<U>\<close> as it is (it does not even construct it), and whatever is put in the
  place of that object, the code has the same outcome and the same effect on everything
  else, or the same undefined behaviour.
\<close>

theorem instantiations_independent:
  "U \<notin> registries a \<Longrightarrow>
   (\<exists>u. exec a (\<sigma>, m) = Inl u \<and> (\<forall>x. exec a (\<sigma>(U := x), m) = Inl u)) \<or>
   (\<exists>r \<sigma>' m'. exec a (\<sigma>, m) = Inr (r, \<sigma>', m') \<and> \<sigma>' U = \<sigma> U \<and>
      (\<forall>x. exec a (\<sigma>(U := x), m) = Inr (r, \<sigma>'(U := x), m')))"
proof (induction a arbitrary: \<sigma> m)
  case (Return r)
  show ?case by simp
next
  case (Throw e)
  show ?case by simp
next
  case (Get T k)
  then have TU: "T \<noteq> U" by auto
  then have fr: "snd (getCurrenton T \<sigma>) U = \<sigma> U" by (rule getCurrenton_frame)
  show ?case
  proof (cases "stack_of \<sigma> T")
    case Nil
    then have A: "exec (Get T k) (\<sigma>, m) =
        Inr (Inl (runtime_error ''No current object''), snd (getCurrenton T \<sigma>), m)"
      by (simp add: exec_Get del: exec.simps)
    from Nil TU have C: "\<And>x. exec (Get T k) (\<sigma>(U := x), m) =
        Inr (Inl (runtime_error ''No current object''), (snd (getCurrenton T \<sigma>))(U := x), m)"
      by (simp add: exec_Get stack_of_other getCurrenton_other del: exec.simps)
    from A fr C show ?thesis by blast
  next
    case (Cons v st)
    let ?\<sigma> = "snd (getCurrenton T \<sigma>)" and ?k = "k (length st) v"
    from Get.prems have "U \<notin> registries ?k" by auto
    from Get.IH [OF rangeI rangeI this, of ?\<sigma> m]
    have ih: "(\<exists>u. exec ?k (?\<sigma>, m) = Inl u \<and> (\<forall>x. exec ?k (?\<sigma>(U := x), m) = Inl u)) \<or>
      (\<exists>r \<sigma>' m'. exec ?k (?\<sigma>, m) = Inr (r, \<sigma>', m') \<and> \<sigma>' U = ?\<sigma> U \<and>
        (\<forall>x. exec ?k (?\<sigma>(U := x), m) = Inr (r, \<sigma>'(U := x), m')))" .
    from Cons have e: "exec (Get T k) (\<sigma>, m) = exec ?k (?\<sigma>, m)"
      by (simp add: exec_Get del: exec.simps)
    from Cons TU have ex: "\<And>x. exec (Get T k) (\<sigma>(U := x), m) = exec ?k (?\<sigma>(U := x), m)"
      by (simp add: exec_Get stack_of_other getCurrenton_other del: exec.simps)
    from ih show ?thesis unfolding e ex fr .
  qed
next
  case (Assign T i v k)
  then have TU: "T \<noteq> U" and Uk: "U \<notin> registries k" by auto
  show ?case
  proof (cases "assign T i v \<sigma>")
    case (Inl u)
    then have A: "exec (Assign T i v k) (\<sigma>, m) = Inl u" by simp
    from Inl TU have "\<And>x. exec (Assign T i v k) (\<sigma>(U := x), m) = Inl u"
      by (simp add: assign_other)
    with A show ?thesis by blast
  next
    case (Inr \<sigma>1)
    from assign_frame [OF TU Inr] have fr: "\<sigma>1 U = \<sigma> U" .
    from Inr have e: "exec (Assign T i v k) (\<sigma>, m) = exec k (\<sigma>1, m)" by simp
    from Inr TU have ex: "\<And>x. exec (Assign T i v k) (\<sigma>(U := x), m) = exec k (\<sigma>1(U := x), m)"
      by (simp add: assign_other)
    from Assign.IH [OF Uk, of \<sigma>1 m] show ?thesis unfolding e ex fr .
  qed
next
  case (Deref T i k)
  then have TU: "T \<noteq> U" by auto
  show ?case
  proof (cases "deref T i \<sigma>")
    case (Inl u)
    then have A: "exec (Deref T i k) (\<sigma>, m) = Inl u" by simp
    from Inl TU have "\<And>x. exec (Deref T i k) (\<sigma>(U := x), m) = Inl u"
      by (simp add: deref_other)
    with A show ?thesis by blast
  next
    case (Inr v)
    from Deref.prems have Uk: "U \<notin> registries (k v)" by auto
    from Inr have e: "exec (Deref T i k) (\<sigma>, m) = exec (k v) (\<sigma>, m)" by simp
    from Inr TU have ex: "\<And>x. exec (Deref T i k) (\<sigma>(U := x), m) = exec (k v) (\<sigma>(U := x), m)"
      by (simp add: deref_other)
    from Deref.IH [OF rangeI Uk, of \<sigma> m] show ?thesis unfolding e ex .
  qed
next
  case (MakeCurrent T t pf f k)
  then have TU: "T \<noteq> U" and Uf: "U \<notin> registries f" and Uk: "U \<notin> registries k" by auto
  show ?case
  proof (cases "push_current T pf t \<sigma>")
    case (Inl x)
    obtain e \<sigma>0 where x: "x = (e, \<sigma>0)" by (cases x)
    with Inl have p: "push_current T pf t \<sigma> = Inl (e, \<sigma>0)" by simp
    from push_current_Inl(2) [OF p] TU have fr: "\<sigma>0 U = \<sigma> U"
      by (simp add: getCurrenton_frame)
    from p have A: "exec (MakeCurrent T t pf f k) (\<sigma>, m) = Inr (Inl e, \<sigma>0, m)"
      by (simp add: makeCurrent_def)
    from p TU have C: "\<And>x. exec (MakeCurrent T t pf f k) (\<sigma>(U := x), m) =
        Inr (Inl e, \<sigma>0(U := x), m)"
      by (simp add: makeCurrent_def push_current_other)
    from A fr C show ?thesis by blast
  next
    case (Inr \<sigma>p)
    note p = this
    from push_current_frame [OF TU p] have pf: "\<sigma>p U = \<sigma> U" .
    from p TU have px: "\<And>x. push_current T pf t (\<sigma>(U := x)) = Inr (\<sigma>p(U := x))"
      by (simp add: push_current_other)
    from MakeCurrent.IH(1) [OF Uf, of \<sigma>p m] show ?thesis
    proof (elim disjE exE conjE)
      fix u
      assume f: "exec f (\<sigma>p, m) = Inl u" and fx0: "\<forall>x. exec f (\<sigma>p(U := x), m) = Inl u"
      note fx = fx0 [rule_format]
      from p f have A: "exec (MakeCurrent T t pf f k) (\<sigma>, m) = Inl u"
        by (simp add: makeCurrent_def)
      from px fx have "\<And>x. exec (MakeCurrent T t pf f k) (\<sigma>(U := x), m) = Inl u"
        by (simp add: makeCurrent_def)
      with A show ?thesis by blast
    next
      fix r1 \<sigma>1 m1
      assume f: "exec f (\<sigma>p, m) = Inr (r1, \<sigma>1, m1)" and u1: "\<sigma>1 U = \<sigma>p U"
        and fx0: "\<forall>x. exec f (\<sigma>p(U := x), m) = Inr (r1, \<sigma>1(U := x), m1)"
      note fx = fx0 [rule_format]
      show ?thesis
      proof (cases "pop_current T \<sigma>1")
        case (Inl u)
        with p f have A: "exec (MakeCurrent T t pf f k) (\<sigma>, m) = Inl u"
          by (cases r1) (simp_all add: makeCurrent_def)
        from Inl TU have "\<And>x. pop_current T (\<sigma>1(U := x)) = Inl u"
          by (simp add: pop_current_other)
        with px fx have "\<And>x. exec (MakeCurrent T t pf f k) (\<sigma>(U := x), m) = Inl u"
          by (cases r1) (simp_all add: makeCurrent_def)
        with A show ?thesis by blast
      next
        case (Inr \<sigma>2)
        note pop = this
        from pop_current_frame [OF TU pop] u1 pf have u2: "\<sigma>2 U = \<sigma> U" by simp
        from pop TU have popx: "\<And>x. pop_current T (\<sigma>1(U := x)) = Inr (\<sigma>2(U := x))"
          by (simp add: pop_current_other)
        show ?thesis
        proof (cases r1)
          case (Inl e)
          with p f pop have A: "exec (MakeCurrent T t pf f k) (\<sigma>, m) = Inr (Inl e, \<sigma>2, m1)"
            by (simp add: makeCurrent_def)
          from Inl px fx popx
          have C: "\<And>x. exec (MakeCurrent T t pf f k) (\<sigma>(U := x), m) =
              Inr (Inl e, \<sigma>2(U := x), m1)"
            by (simp add: makeCurrent_def)
          from A u2 C show ?thesis by blast
        next
          case (Inr y)
          with p f pop have e: "exec (MakeCurrent T t pf f k) (\<sigma>, m) = exec k (\<sigma>2, m1)"
            by (simp add: makeCurrent_def)
          from Inr px fx popx
          have ex: "\<And>x. exec (MakeCurrent T t pf f k) (\<sigma>(U := x), m) =
              exec k (\<sigma>2(U := x), m1)"
            by (simp add: makeCurrent_def)
          from MakeCurrent.IH(2) [OF Uk, of \<sigma>2 m1] show ?thesis unfolding e ex u2 .
        qed
      qed
    qed
  qed
next
  case (TryCatch b h k)
  then have Ub: "U \<notin> registries b" and Uh: "\<And>e. U \<notin> registries (h e)"
    and Uk: "U \<notin> registries k" by auto
  from TryCatch.IH(1) [OF Ub, of \<sigma> m] show ?case
  proof (elim disjE exE conjE)
    fix u
    assume b: "exec b (\<sigma>, m) = Inl u" and bx0: "\<forall>x. exec b (\<sigma>(U := x), m) = Inl u"
    note bx = bx0 [rule_format]
    from b have A: "exec (TryCatch b h k) (\<sigma>, m) = Inl u" by simp
    from bx have "\<And>x. exec (TryCatch b h k) (\<sigma>(U := x), m) = Inl u" by simp
    with A show ?thesis by blast
  next
    fix r1 \<sigma>1 m1
    assume b: "exec b (\<sigma>, m) = Inr (r1, \<sigma>1, m1)" and u1: "\<sigma>1 U = \<sigma> U"
      and bx0: "\<forall>x. exec b (\<sigma>(U := x), m) = Inr (r1, \<sigma>1(U := x), m1)"
    note bx = bx0 [rule_format]
    show ?thesis
    proof (cases r1)
      case (Inr y)
      with b have e: "exec (TryCatch b h k) (\<sigma>, m) = exec k (\<sigma>1, m1)" by simp
      from Inr bx have ex: "\<And>x. exec (TryCatch b h k) (\<sigma>(U := x), m) = exec k (\<sigma>1(U := x), m1)"
        by simp
      from TryCatch.IH(3) [OF Uk, of \<sigma>1 m1] show ?thesis unfolding e ex u1 .
    next
      case (Inl e)
      note E = this
      from TryCatch.IH(2) [OF rangeI Uh, of e \<sigma>1 m1] show ?thesis
      proof (elim disjE exE conjE)
        fix u
        assume h: "exec (h e) (\<sigma>1, m1) = Inl u"
          and hx0: "\<forall>x. exec (h e) (\<sigma>1(U := x), m1) = Inl u"
        note hx = hx0 [rule_format]
        from E b h have A: "exec (TryCatch b h k) (\<sigma>, m) = Inl u" by simp
        from E bx hx have "\<And>x. exec (TryCatch b h k) (\<sigma>(U := x), m) = Inl u" by simp
        with A show ?thesis by blast
      next
        fix r2 \<sigma>2 m2
        assume h: "exec (h e) (\<sigma>1, m1) = Inr (r2, \<sigma>2, m2)" and u2: "\<sigma>2 U = \<sigma>1 U"
          and hx0: "\<forall>x. exec (h e) (\<sigma>1(U := x), m1) = Inr (r2, \<sigma>2(U := x), m2)"
        note hx = hx0 [rule_format]
        from u2 u1 have u2': "\<sigma>2 U = \<sigma> U" by simp
        show ?thesis
        proof (cases r2)
          case (Inl e')
          with E b h have A: "exec (TryCatch b h k) (\<sigma>, m) = Inr (Inl e', \<sigma>2, m2)" by simp
          from Inl E bx hx
          have C: "\<And>x. exec (TryCatch b h k) (\<sigma>(U := x), m) = Inr (Inl e', \<sigma>2(U := x), m2)"
            by simp
          from A u2' C show ?thesis by blast
        next
          case (Inr y)
          with E b h have e: "exec (TryCatch b h k) (\<sigma>, m) = exec k (\<sigma>2, m2)" by simp
          from Inr E bx hx
          have ex: "\<And>x. exec (TryCatch b h k) (\<sigma>(U := x), m) = exec k (\<sigma>2(U := x), m2)"
            by simp
          from TryCatch.IH(3) [OF Uk, of \<sigma>2 m2] show ?thesis unfolding e ex u2' .
        qed
      qed
    qed
  qed
next
  case (Local g k)
  from Local.IH [of \<sigma> "g m"] Local.prems show ?case by simp
next
  case (Inspect q)
  from Inspect.prems have "U \<notin> registries (q m)" by auto
  from Inspect.IH [OF rangeI this, of \<sigma> m] show ?case by simp
qed

theorem instantiations_independent_witness:
  "''B'' \<notin> registries only_A \<and>
   (\<exists>r \<sigma>' m'.
      exec only_A ([''B'' \<mapsto> \<lparr>stack = [7]\<rparr>], ()) = Inr (r, \<sigma>', m') \<and>
      \<sigma>' ''B'' = Some \<lparr>stack = [7]\<rparr> \<and>
      (\<forall>x. exec only_A ([''B'' \<mapsto> \<lparr>stack = [7]\<rparr>](''B'' := x), ()) =
        Inr (r, \<sigma>'(''B'' := x), m')))"
proof -
  have h: "''B'' \<notin> registries only_A"
    by (simp add: only_A_def)
  have e: "exec only_A ([''B'' \<mapsto> \<lparr>stack = [7]\<rparr>], ()) =
      Inr (Inr 0, [''B'' \<mapsto> \<lparr>stack = [7]\<rparr>, ''A'' \<mapsto> \<lparr>stack = []\<rparr>], ())"
    by (simp add: only_A_def evals)
  from instantiations_independent [OF h, of "[''B'' \<mapsto> \<lparr>stack = [7]\<rparr>]" "()"] e h
  show ?thesis by auto
qed

subsection \<open>\<^verbatim>\<open>get\<close> only reads\<close>

text \<open>
  Claim C9. \<^verbatim>\<open>get\<close> is a pure read of the stacks: from every state it completes,
  with the reference to the top element when there is one and with the exception when
  there is none, and every stack of the thread has afterwards the contents (so also the
  size) it had before. An object that did not exist before the call exists afterwards,
  with an empty stack.
\<close>

theorem get_leaves_stack_unchanged:
  "\<exists>r \<sigma>'. get T \<sigma> = Inr (r, \<sigma>') \<and> stack_of \<sigma>' = stack_of \<sigma> \<and>
     r = (case stack_of \<sigma> T of
            [] \<Rightarrow> Inl (runtime_error ''No current object'')
          | v # st \<Rightarrow> Inr (length st, v))"
  by (simp add: get_eq stack_of_getCurrenton)

theorem get_leaves_stack_unchanged_witness:
  "\<exists>\<sigma>'. get ''Integer'' [''Integer'' \<mapsto> \<lparr>stack = [11, 10]\<rparr>] =
          Inr (Inr (1, 11::int) :: string exn + nat \<times> int, \<sigma>') \<and>
        stack_of \<sigma>' ''Integer'' = [11, 10]"
proof -
  from get_leaves_stack_unchanged [of "''Integer''" "[''Integer'' \<mapsto> \<lparr>stack = [11, 10]\<rparr>]"]
  obtain r :: "string exn + nat \<times> int" and \<sigma>' where
    a: "get ''Integer'' [''Integer'' \<mapsto> \<lparr>stack = [11, 10]\<rparr>] = Inr (r, \<sigma>')"
    and b: "stack_of \<sigma>' = stack_of [''Integer'' \<mapsto> \<lparr>stack = [11, 10]\<rparr>]"
    and c: "r = (case stack_of [''Integer'' \<mapsto> \<lparr>stack = [11, 10::int]\<rparr>] ''Integer'' of
                   [] \<Rightarrow> Inl (runtime_error ''No current object'')
                 | v # st \<Rightarrow> Inr (length st, v))"
    by blast
  from c have "r = Inr (1, 11)" by (simp add: stack_of_def)
  moreover from b have "stack_of \<sigma>' ''Integer'' = [11, 10]" by (simp add: stack_of_def)
  ultimately show ?thesis using a by blast
qed

subsection \<open>How often the callback runs\<close>




end
